theory Spec2Isabelle
  imports Complex_Main "HOL-Library.Word" "HOL-Library.Multiset"
begin

unbundle bit_operations_syntax

section \<open>Conventions\<close>

text \<open>
  The corpus is a flat set of C++ exercise functions.  A \<^verbatim>\<open>std::vector<T>\<close> and a
  \<^verbatim>\<open>std::string\<close> are HOL lists and \<^verbatim>\<open>v.size()\<close> is \<^term>\<open>length v\<close>.  Sizes, indices and
  the counters that range over a container are naturals or integers: a container is
  taken to have fewer than \<open>2^31\<close> elements, so that an \<^verbatim>\<open>int\<close> that holds its size or an
  index holds it exactly.  A value of type \<^verbatim>\<open>int\<close> on which the code computes is a
  32-bit word read in two's complement (\<^term>\<open>sint\<close>, \<open>\<le>s\<close>, \<open><s\<close>) whose arithmetic wraps
  around; \<open>reverseInt\<close>, whose property is about the runs without overflow, checks every
  operation instead.  A value of type \<^verbatim>\<open>int\<close> that is only copied and compared is
  modelled by its value, an \<^typ>\<open>int\<close>.  An exception and an access outside a container
  are values of the type \<open>failure\<close>.
\<close>

type_synonym int32 = "32 word"

datatype failure = InvalidArgument | LengthError | OutOfRange

definition INT_MAX :: int32 where
  "INT_MAX = 0x7FFFFFFF"

definition INT_MIN :: int32 where
  "INT_MIN = 0x80000000"

text \<open>A read at an \<^verbatim>\<open>int\<close> index that may lie outside the container.\<close>

definition at_index :: "'a list \<Rightarrow> int \<Rightarrow> failure + 'a" where
  "at_index xs k = (if 0 \<le> k \<and> k < int (length xs) then Inr (xs ! nat k) else Inl OutOfRange)"

section \<open>mergeSortedArrays (M02)\<close>

text \<open>
  The elements are only compared and copied, so they are their values.  The first loop
  runs while both indices are in range; it returns the two indices and the result built
  so far.  The second and third loops are the same loop over one input.
\<close>

function mergeSortedArrays_both ::
  "int list \<Rightarrow> int list \<Rightarrow> nat \<Rightarrow> nat \<Rightarrow> int list \<Rightarrow> nat \<times> nat \<times> int list" where
  "mergeSortedArrays_both nums1 nums2 i j result =
     (if i < length nums1 \<and> j < length nums2
      then if nums1 ! i \<le> nums2 ! j
           then mergeSortedArrays_both nums1 nums2 (i + 1) j (result @ [nums1 ! i])
           else mergeSortedArrays_both nums1 nums2 i (j + 1) (result @ [nums2 ! j])
      else (i, j, result))"
  by pat_completeness auto
termination
  by (relation "measure (\<lambda>(nums1, nums2, i, j, result). (length nums1 - i) + (length nums2 - j))") auto

function mergeSortedArrays_rest :: "int list \<Rightarrow> nat \<Rightarrow> int list \<Rightarrow> int list" where
  "mergeSortedArrays_rest nums i result =
     (if i < length nums
      then mergeSortedArrays_rest nums (i + 1) (result @ [nums ! i])
      else result)"
  by pat_completeness auto
termination
  by (relation "measure (\<lambda>(nums, i, result). length nums - i)") auto

definition mergeSortedArrays :: "int list \<Rightarrow> int list \<Rightarrow> int list" where
  "mergeSortedArrays nums1 nums2 =
     (case mergeSortedArrays_both nums1 nums2 0 0 [] of
        (i, j, result) \<Rightarrow>
          mergeSortedArrays_rest nums2 j (mergeSortedArrays_rest nums1 i result))"

text \<open>
  Which input an output element was copied from cannot be seen in a vector of \<^verbatim>\<open>int\<close>.
  The traced run is the same three loops, where every \<^verbatim>\<open>push_back\<close> also records the
  input it read; erasing the record gives back the run above (\<open>traced_erase\<close> below).
\<close>

datatype source = FromNums1 | FromNums2

function mergeSortedArrays_traced_both ::
  "int list \<Rightarrow> int list \<Rightarrow> nat \<Rightarrow> nat \<Rightarrow> (int \<times> source) list
     \<Rightarrow> nat \<times> nat \<times> (int \<times> source) list" where
  "mergeSortedArrays_traced_both nums1 nums2 i j result =
     (if i < length nums1 \<and> j < length nums2
      then if nums1 ! i \<le> nums2 ! j
           then mergeSortedArrays_traced_both nums1 nums2 (i + 1) j (result @ [(nums1 ! i, FromNums1)])
           else mergeSortedArrays_traced_both nums1 nums2 i (j + 1) (result @ [(nums2 ! j, FromNums2)])
      else (i, j, result))"
  by pat_completeness auto
termination
  by (relation "measure (\<lambda>(nums1, nums2, i, j, result). (length nums1 - i) + (length nums2 - j))") auto

function mergeSortedArrays_traced_rest ::
  "source \<Rightarrow> int list \<Rightarrow> nat \<Rightarrow> (int \<times> source) list \<Rightarrow> (int \<times> source) list" where
  "mergeSortedArrays_traced_rest s nums i result =
     (if i < length nums
      then mergeSortedArrays_traced_rest s nums (i + 1) (result @ [(nums ! i, s)])
      else result)"
  by pat_completeness auto
termination
  by (relation "measure (\<lambda>(s, nums, i, result). length nums - i)") auto

definition mergeSortedArrays_traced :: "int list \<Rightarrow> int list \<Rightarrow> (int \<times> source) list" where
  "mergeSortedArrays_traced nums1 nums2 =
     (case mergeSortedArrays_traced_both nums1 nums2 0 0 [] of
        (i, j, result) \<Rightarrow>
          mergeSortedArrays_traced_rest FromNums2 nums2 j (mergeSortedArrays_traced_rest FromNums1 nums1 i result))"

text \<open>
  For an output where no element read from \<open>nums2\<close> stands before an equal element read
  from \<open>nums1\<close>.
\<close>

definition nums1_before_equal_nums2 :: "(int \<times> source) list \<Rightarrow> bool" where
  "nums1_before_equal_nums2 es =
     sorted_wrt (\<lambda>a b. \<not> (fst a = fst b \<and> snd a = FromNums2 \<and> snd b = FromNums1)) es"

text \<open>The recursion on the two remaining suffixes that the loops compute (proof device).\<close>

fun tagged_merge :: "int list \<Rightarrow> int list \<Rightarrow> (int \<times> source) list" where
  "tagged_merge [] ys = map (\<lambda>y. (y, FromNums2)) ys"
| "tagged_merge (x # xs) [] = map (\<lambda>x. (x, FromNums1)) (x # xs)"
| "tagged_merge (x # xs) (y # ys) =
     (if x \<le> y then (x, FromNums1) # tagged_merge xs (y # ys)
      else (y, FromNums2) # tagged_merge (x # xs) ys)"

declare mergeSortedArrays_both.simps [simp del] mergeSortedArrays_rest.simps [simp del]
  mergeSortedArrays_traced_both.simps [simp del] mergeSortedArrays_traced_rest.simps [simp del]

lemma mergeSortedArrays_traced_rest_eq:
  "mergeSortedArrays_traced_rest s nums i result = result @ map (\<lambda>x. (x, s)) (drop i nums)"
proof (induction s nums i result rule: mergeSortedArrays_traced_rest.induct)
  case (1 s nums i result)
  show ?case
  proof (cases "i < length nums")
    case True
    then have "drop i nums = nums ! i # drop (Suc i) nums"
      by (simp add: Cons_nth_drop_Suc)
    with True 1 show ?thesis
      by (subst mergeSortedArrays_traced_rest.simps) simp
  next
    case False
    then show ?thesis by (subst mergeSortedArrays_traced_rest.simps) simp
  qed
qed

lemma tagged_merge_Nil2: "tagged_merge xs [] = map (\<lambda>x. (x, FromNums1)) xs"
  by (cases xs) simp_all

lemma mergeSortedArrays_traced_both_eq:
  "mergeSortedArrays_traced_both nums1 nums2 i j result = (i', j', result') \<Longrightarrow>
   mergeSortedArrays_traced_rest FromNums2 nums2 j' (mergeSortedArrays_traced_rest FromNums1 nums1 i' result')
     = result @ tagged_merge (drop i nums1) (drop j nums2)"
proof (induction nums1 nums2 i j result rule: mergeSortedArrays_traced_both.induct)
  case (1 nums1 nums2 i j result)
  show ?case
  proof (cases "i < length nums1 \<and> j < length nums2")
    case True
    then have d: "drop i nums1 = nums1 ! i # drop (Suc i) nums1"
      "drop j nums2 = nums2 ! j # drop (Suc j) nums2"
      by (simp_all add: Cons_nth_drop_Suc)
    show ?thesis
    proof (cases "nums1 ! i \<le> nums2 ! j")
      case le: True
      from "1.prems" True le
      have "mergeSortedArrays_traced_both nums1 nums2 (i + 1) j (result @ [(nums1 ! i, FromNums1)]) = (i', j', result')"
        by (subst (asm) mergeSortedArrays_traced_both.simps) simp
      from "1.IH"(1) [OF True le this] show ?thesis
        using le d by simp
    next
      case gt: False
      from "1.prems" True gt
      have "mergeSortedArrays_traced_both nums1 nums2 i (j + 1) (result @ [(nums2 ! j, FromNums2)]) = (i', j', result')"
        by (subst (asm) mergeSortedArrays_traced_both.simps) simp
      from "1.IH"(2) [OF True gt this] show ?thesis
        using gt d by simp
    qed
  next
    case False
    with "1.prems" have e: "i' = i" "j' = j" "result' = result"
      by (subst (asm) mergeSortedArrays_traced_both.simps, simp)+
    from False consider "length nums1 \<le> i" | "length nums2 \<le> j" by linarith
    then show ?thesis
    proof cases
      case 1
      then show ?thesis by (simp add: e mergeSortedArrays_traced_rest_eq)
    next
      case 2
      then show ?thesis by (simp add: e mergeSortedArrays_traced_rest_eq tagged_merge_Nil2)
    qed
  qed
qed

lemma mergeSortedArrays_traced_eq:
  "mergeSortedArrays_traced nums1 nums2 = tagged_merge nums1 nums2"
proof -
  obtain i j result where r: "mergeSortedArrays_traced_both nums1 nums2 0 0 [] = (i, j, result)"
    by (cases "mergeSortedArrays_traced_both nums1 nums2 0 0 []") auto
  from mergeSortedArrays_traced_both_eq [OF r] r show ?thesis
    by (simp add: mergeSortedArrays_traced_def)
qed

lemma rest_erase:
  "map fst (mergeSortedArrays_traced_rest s nums i result) = mergeSortedArrays_rest nums i (map fst result)"
proof (induction s nums i result rule: mergeSortedArrays_traced_rest.induct)
  case (1 s nums i result)
  show ?case
    by (subst mergeSortedArrays_traced_rest.simps, subst mergeSortedArrays_rest.simps) (use 1 in simp)
qed

lemma both_erase:
  "mergeSortedArrays_both nums1 nums2 i j (map fst result) =
     (case mergeSortedArrays_traced_both nums1 nums2 i j result of (i', j', r) \<Rightarrow> (i', j', map fst r))"
proof (induction nums1 nums2 i j result rule: mergeSortedArrays_traced_both.induct)
  case (1 nums1 nums2 i j result)
  show ?case
    by (subst mergeSortedArrays_traced_both.simps, subst mergeSortedArrays_both.simps)
       (use 1 in \<open>auto\<close>)
qed

lemma traced_erase:
  "map fst (mergeSortedArrays_traced nums1 nums2) = mergeSortedArrays nums1 nums2"
  using both_erase [of nums1 nums2 0 0 "[]"]
  by (simp add: mergeSortedArrays_traced_def mergeSortedArrays_def rest_erase split: prod.splits)

lemma set_tagged_merge:
  "set (tagged_merge xs ys) = (\<lambda>x. (x, FromNums1)) ` set xs \<union> (\<lambda>y. (y, FromNums2)) ` set ys"
  by (induction xs ys rule: tagged_merge.induct) auto

lemma sorted_tagged_merge:
  "sorted xs \<Longrightarrow> sorted ys \<Longrightarrow> sorted (map fst (tagged_merge xs ys))"
  by (induction xs ys rule: tagged_merge.induct)
     (auto simp: set_tagged_merge comp_def image_Un image_image)

lemma mset_tagged_merge:
  "mset (map fst (tagged_merge xs ys)) = mset xs + mset ys"
  by (induction xs ys rule: tagged_merge.induct) (auto simp: comp_def)

lemma filter1_tagged_merge:
  "map fst (filter (\<lambda>e. snd e = FromNums1) (tagged_merge xs ys)) = xs"
  by (induction xs ys rule: tagged_merge.induct) (auto simp: comp_def filter_map)

lemma filter2_tagged_merge:
  "map fst (filter (\<lambda>e. snd e = FromNums2) (tagged_merge xs ys)) = ys"
  by (induction xs ys rule: tagged_merge.induct) (auto simp: comp_def filter_map)

lemma stable_tagged_merge:
  "sorted xs \<Longrightarrow> nums1_before_equal_nums2 (tagged_merge xs ys)"
  unfolding nums1_before_equal_nums2_def
  by (induction xs ys rule: tagged_merge.induct)
     (auto simp: set_tagged_merge sorted_wrt_map)

text \<open>
  Claim C1.  For sorted inputs the result is sorted and is a permutation of the
  concatenation of the inputs.  The merge is stable: in the traced run, whose values
  are the result, the elements read from each input are that input in its order, and
  no element read from \<open>nums2\<close> stands before an equal element read from \<open>nums1\<close>.
\<close>

theorem mergeSortedArrays_sorted_perm_stable:
  assumes "sorted nums1" and "sorted nums2"
  shows "sorted (mergeSortedArrays nums1 nums2)
       \<and> mset (mergeSortedArrays nums1 nums2) = mset (nums1 @ nums2)
       \<and> map fst (mergeSortedArrays_traced nums1 nums2) = mergeSortedArrays nums1 nums2
       \<and> map fst (filter (\<lambda>e. snd e = FromNums1) (mergeSortedArrays_traced nums1 nums2)) = nums1
       \<and> map fst (filter (\<lambda>e. snd e = FromNums2) (mergeSortedArrays_traced nums1 nums2)) = nums2
       \<and> nums1_before_equal_nums2 (mergeSortedArrays_traced nums1 nums2)"
proof -
  have e: "mergeSortedArrays nums1 nums2 = map fst (tagged_merge nums1 nums2)"
    by (simp add: traced_erase [symmetric] mergeSortedArrays_traced_eq)
  have "sorted (mergeSortedArrays nums1 nums2)"
    unfolding e using assms by (rule sorted_tagged_merge)
  moreover have "mset (mergeSortedArrays nums1 nums2) = mset (nums1 @ nums2)"
    unfolding e using mset_tagged_merge [of nums1 nums2] by simp
  moreover have "nums1_before_equal_nums2 (mergeSortedArrays_traced nums1 nums2)"
    unfolding mergeSortedArrays_traced_eq using assms(1) by (rule stable_tagged_merge)
  ultimately show ?thesis
    by (simp add: traced_erase)
       (simp add: mergeSortedArrays_traced_eq filter1_tagged_merge filter2_tagged_merge)
qed

theorem mergeSortedArrays_sorted_perm_stable_witness:
  "sorted (mergeSortedArrays [1, 3, 3, 5] [2, 3, 4])
   \<and> mset (mergeSortedArrays [1, 3, 3, 5] [2, 3, 4]) = mset ([1, 3, 3, 5] @ [2, 3, 4])
   \<and> mergeSortedArrays_traced [1, 3, 3, 5] [2, 3, 4] =
       [(1, FromNums1), (2, FromNums2), (3, FromNums1), (3, FromNums1), (3, FromNums2),
        (4, FromNums2), (5, FromNums1)]"
proof -
  have s: "sorted [1, 3, 3, 5 :: int]" "sorted [2, 3, 4 :: int]" by simp_all
  have t: "mergeSortedArrays_traced [1, 3, 3, 5] [2, 3, 4] =
       [(1, FromNums1), (2, FromNums2), (3, FromNums1), (3, FromNums1), (3, FromNums2),
        (4, FromNums2), (5, FromNums1)]"
    by code_simp
  from mergeSortedArrays_sorted_perm_stable [OF s] t show ?thesis by simp
qed

section \<open>removeDuplicates (M06)\<close>

text \<open>
  The vector is passed by reference and compacted in place: the model takes the vector
  and returns the value returned together with the vector after the call.  The loop
  starts at \<open>read_index = write_index = 1\<close> and keeps \<open>1 \<le> write_index \<le> read_index\<close>, so
  every access it makes is inside the vector.
\<close>

function removeDuplicates_loop :: "int list \<Rightarrow> nat \<Rightarrow> nat \<Rightarrow> nat \<times> int list" where
  "removeDuplicates_loop nums read_index write_index =
     (if read_index < length nums
      then if nums ! read_index \<noteq> nums ! (read_index - 1)
           then removeDuplicates_loop (nums[write_index := nums ! read_index])
                  (read_index + 1) (write_index + 1)
           else removeDuplicates_loop nums (read_index + 1) write_index
      else (write_index, nums))"
  by pat_completeness auto
termination
  by (relation "measure (\<lambda>(nums, read_index, write_index). length nums - read_index)") auto

definition removeDuplicates :: "int list \<Rightarrow> int \<times> int list" where
  "removeDuplicates nums =
     (if nums = [] then (0, nums)
      else case removeDuplicates_loop nums 1 1 of
             (write_index, nums') \<Rightarrow> (int write_index, nums'))"

declare removeDuplicates_loop.simps [simp del]

lemma distinct_remdups_adj_sorted:
  fixes xs :: "int list"
  shows "sorted xs \<Longrightarrow> distinct (remdups_adj xs)"
  by (induction xs rule: remdups_adj.induct) (auto split: if_split_asm)

lemma remdups_adj_sorted_eq:
  fixes xs :: "int list"
  assumes "sorted xs"
  shows "remdups_adj xs = sorted_list_of_set (set xs)"
  by (rule sorted_distinct_set_unique)
     (use assms in \<open>simp_all add: distinct_remdups_adj_sorted\<close>)

lemma removeDuplicates_loop_exit:
  assumes run: "removeDuplicates_loop cur r w = (k, res)"
    and wr: "w \<le> r" and rn: "r \<le> length nums"
    and len: "length cur = length nums"
    and tk: "take w cur = remdups_adj (take r nums)"
    and dr: "drop w cur = drop w nums"
    and stop: "\<not> r < length cur"
  shows "k = length (remdups_adj nums) \<and> take k res = remdups_adj nums
       \<and> drop k res = drop k nums \<and> length res = length nums"
proof -
  from run stop have e: "k = w" "res = cur"
    by (subst (asm) removeDuplicates_loop.simps, simp)+
  from stop rn len have "take r nums = nums" by simp
  with tk have tw: "take w cur = remdups_adj nums" by simp
  have "w = length (take w cur)" using wr rn len by simp
  then have kw: "w = length (remdups_adj nums)" unfolding tw .
  show ?thesis
    unfolding e
  proof (intro conjI)
    show "w = length (remdups_adj nums)" by (rule kw)
    show "take w cur = remdups_adj nums" by (rule tw)
    show "drop w cur = drop w nums" by (rule dr)
    show "length cur = length nums" by (rule len)
  qed
qed

lemma removeDuplicates_loop_reads:
  assumes w1: "1 \<le> w" and wr: "w \<le> r" and rn: "r < length nums"
    and len: "length cur = length nums"
    and tk: "take w cur = remdups_adj (take r nums)"
    and dr: "drop w cur = drop w nums"
  shows "cur ! r = nums ! r" and "cur ! (r - 1) = nums ! (r - 1)"
proof -
  have n: "\<And>i. w \<le> i \<Longrightarrow> i < length nums \<Longrightarrow> cur ! i = nums ! i"
  proof -
    fix i assume i: "w \<le> i" "i < length nums"
    have "cur ! i = drop w cur ! (i - w)" using i len by simp
    also have "\<dots> = nums ! i" unfolding dr using i by simp
    finally show "cur ! i = nums ! i" .
  qed
  show "cur ! r = nums ! r" using wr rn by (rule n)
  show "cur ! (r - 1) = nums ! (r - 1)"
  proof (cases "w \<le> r - 1")
    case True
    then show ?thesis using rn by (intro n) simp_all
  next
    case False
    with wr have e: "w = r" by simp
    have ne: "take r nums \<noteq> []" using w1 rn e by auto
    have lt: "length (take w cur) = w" using e rn len by simp
    have "take w cur \<noteq> []" using lt w1 by auto
    then have "last (take w cur) = take w cur ! (length (take w cur) - 1)"
      by (rule last_conv_nth)
    also have "\<dots> = cur ! (r - 1)" unfolding lt using w1 e by simp
    finally have "cur ! (r - 1) = last (take w cur)" by (rule sym)
    also have "\<dots> = last (take r nums)" unfolding tk by simp
    also have "\<dots> = nums ! (r - 1)"
      using ne rn by (simp add: last_conv_nth)
    finally show ?thesis .
  qed
qed

lemma remdups_adj_take_Suc:
  assumes "1 \<le> r" and rn: "r < length nums"
  shows "remdups_adj (take (Suc r) nums) =
     remdups_adj (take r nums) @ (if nums ! (r - 1) = nums ! r then [] else [nums ! r])"
proof -
  have r1: "Suc (r - 1) = r" and r1n: "r - 1 < length nums"
    using assms by simp_all
  have tk0: "take r nums = take (r - 1) nums @ [nums ! (r - 1)]"
    using take_Suc_conv_app_nth [OF r1n] unfolding r1 .
  have tk: "take (Suc r) nums = take (r - 1) nums @ [nums ! (r - 1), nums ! r]"
    using take_Suc_conv_app_nth [OF rn] unfolding tk0 by simp
  show ?thesis
    unfolding tk tk0 by (rule remdups_adj_append_two)
qed

lemma removeDuplicates_loop_invariant:
  assumes "removeDuplicates_loop cur r w = (k, res)"
    and "1 \<le> w" and "w \<le> r" and "r \<le> length nums"
    and "length cur = length nums"
    and "take w cur = remdups_adj (take r nums)"
    and "drop w cur = drop w nums"
  shows "k = length (remdups_adj nums) \<and> take k res = remdups_adj nums
       \<and> drop k res = drop k nums \<and> length res = length nums"
  using assms
proof (induction cur r w rule: removeDuplicates_loop.induct)
  case (1 cur r w)
  note run = "1.prems"(1) and w1 = "1.prems"(2) and wr = "1.prems"(3) and rle = "1.prems"(4)
    and len = "1.prems"(5) and tk = "1.prems"(6) and dr = "1.prems"(7)
  show ?case
  proof (cases "r < length cur")
    case False
    from run wr rle len tk dr False show ?thesis
      by (rule removeDuplicates_loop_exit)
  next
    case True
    have rn: "r < length nums" using True len by simp
    have wl: "w < length cur" using True wr by simp
    note at_r = removeDuplicates_loop_reads(1) [OF w1 wr rn len tk dr]
    note at_r1 = removeDuplicates_loop_reads(2) [OF w1 wr rn len tk dr]
    have r1: "1 \<le> r" using w1 wr by simp
    note step = remdups_adj_take_Suc [OF r1 rn]
    show ?thesis
    proof (cases "cur ! r \<noteq> cur ! (r - 1)")
      case neq: True
      from run True neq
      have run': "removeDuplicates_loop (cur[w := cur ! r]) (r + 1) (w + 1) = (k, res)"
        by (subst (asm) removeDuplicates_loop.simps) simp
      have "take (Suc w) (cur[w := cur ! r]) = take w cur @ [cur ! r]"
        using wl by (simp add: take_Suc_conv_app_nth)
      also have "\<dots> = remdups_adj (take (Suc r) nums)"
        unfolding step tk using neq at_r at_r1 by simp
      finally have a: "take (w + 1) (cur[w := cur ! r]) = remdups_adj (take (r + 1) nums)"
        by simp
      have "drop (Suc w) cur = drop 1 (drop w cur)"
        by simp
      also have "\<dots> = drop (Suc w) nums"
        unfolding dr by simp
      finally have b: "drop (w + 1) (cur[w := cur ! r]) = drop (w + 1) nums"
        by simp
      have c: "1 \<le> w + 1" "w + 1 \<le> r + 1" "r + 1 \<le> length nums"
        "length (cur[w := cur ! r]) = length nums"
        using wr rn len by simp_all
      show ?thesis
        by (rule "1.IH"(1) [OF True neq run' c a b])
    next
      case eq: False
      from run True eq
      have run': "removeDuplicates_loop cur (r + 1) w = (k, res)"
        by (subst (asm) removeDuplicates_loop.simps) simp
      have "remdups_adj (take (Suc r) nums) = remdups_adj (take r nums)"
        unfolding step using eq at_r at_r1 by simp
      with tk have a: "take w cur = remdups_adj (take (r + 1) nums)"
        by simp
      have c: "w \<le> r + 1" "r + 1 \<le> length nums"
        using wr rn by simp_all
      show ?thesis
        by (rule "1.IH"(2) [OF True eq run' w1 c len a dr])
    qed
  qed
qed

lemma removeDuplicates_remdups_adj:
  obtains res where "removeDuplicates nums = (int (length (remdups_adj nums)), res)"
    and "take (length (remdups_adj nums)) res = remdups_adj nums"
    and "drop (length (remdups_adj nums)) res = drop (length (remdups_adj nums)) nums"
    and "length res = length nums"
proof (cases "nums = []")
  case True
  then show ?thesis using that [of nums] by (simp add: removeDuplicates_def)
next
  case False
  obtain k res where run: "removeDuplicates_loop nums 1 1 = (k, res)"
    by (cases "removeDuplicates_loop nums 1 1") auto
  from False have one: "take 1 nums = [hd nums]"
    by (cases nums) simp_all
  have inv: "k = length (remdups_adj nums) \<and> take k res = remdups_adj nums
       \<and> drop k res = drop k nums \<and> length res = length nums"
    by (rule removeDuplicates_loop_invariant [OF run])
       (use False one in \<open>simp_all add: Suc_leI\<close>)
  have r: "removeDuplicates nums = (int k, res)"
    using False run by (simp add: removeDuplicates_def)
  from inv r show ?thesis
    using that [of res] by blast
qed

text \<open>
  Claim C7.  For a sorted vector the value returned is the number of distinct values;
  after the call the first \<open>k\<close> elements are the distinct values in increasing order, the
  size is unchanged and so is every element at an index from \<open>k\<close> on.
\<close>

theorem removeDuplicates_sorted:
  assumes "sorted nums"
  shows "fst (removeDuplicates nums) = int (card (set nums))
       \<and> take (nat (fst (removeDuplicates nums))) (snd (removeDuplicates nums))
           = sorted_list_of_set (set nums)
       \<and> sorted_wrt (<) (take (nat (fst (removeDuplicates nums))) (snd (removeDuplicates nums)))
       \<and> length (snd (removeDuplicates nums)) = length nums
       \<and> drop (nat (fst (removeDuplicates nums))) (snd (removeDuplicates nums))
           = drop (nat (fst (removeDuplicates nums))) nums"
proof -
  have e: "remdups_adj nums = sorted_list_of_set (set nums)"
    using assms by (rule remdups_adj_sorted_eq)
  have c: "length (remdups_adj nums) = card (set nums)"
    unfolding e by simp
  have s: "sorted_wrt (<) (remdups_adj nums)"
    unfolding e by (simp add: strict_sorted_iff)
  obtain res where r: "removeDuplicates nums = (int (length (remdups_adj nums)), res)"
    and t: "take (length (remdups_adj nums)) res = remdups_adj nums"
    and d: "drop (length (remdups_adj nums)) res = drop (length (remdups_adj nums)) nums"
    and l: "length res = length nums"
    by (rule removeDuplicates_remdups_adj)
  have "take (length (remdups_adj nums)) res = sorted_list_of_set (set nums)"
    using t e by simp
  moreover have "sorted_wrt (<) (take (length (remdups_adj nums)) res)"
    using t s by simp
  ultimately show ?thesis
    unfolding r using c d l by simp
qed

theorem removeDuplicates_sorted_witness:
  "removeDuplicates [1, 1, 2, 3, 3, 3, 7] = (4, [1, 2, 3, 7, 3, 3, 7])
   \<and> int (card (set [1, 1, 2, 3, 3, 3, 7 :: int])) = 4
   \<and> sorted_list_of_set (set [1, 1, 2, 3, 3, 3, 7 :: int]) = [1, 2, 3, 7]"
proof -
  have s: "sorted [1, 1, 2, 3, 3, 3, 7 :: int]" by simp
  have r: "removeDuplicates [1, 1, 2, 3, 3, 3, 7] = (4, [1, 2, 3, 7, 3, 3, 7])"
    by code_simp
  have k: "take (nat 4) [1, 2, 3, 7, 3, 3, 7 :: int] = [1, 2, 3, 7]"
    by simp
  note t = removeDuplicates_sorted [OF s, unfolded r fst_conv snd_conv k]
  have "int (card (set [1, 1, 2, 3, 3, 3, 7 :: int])) = 4"
    by (rule sym) (rule t [THEN conjunct1])
  moreover have "sorted_list_of_set (set [1, 1, 2, 3, 3, 3, 7 :: int]) = [1, 2, 3, 7]"
    by (rule sym) (rule t [THEN conjunct2, THEN conjunct1])
  ultimately show ?thesis
    using r by (intro conjI)
qed

section \<open>fibonacci (exercise03, templates/template.cpp, template/cpp-template.cpp)\<close>

text \<open>
  The argument, the loop counter and the two running values are \<^verbatim>\<open>int\<close>: 32-bit words,
  compared as signed numbers, with additions that wrap around.  The loop
  \<^verbatim>\<open>for (int i = 2; i <= n; ++i) { int c = a + b; a = b; b = c; }\<close> followed by
  \<^verbatim>\<open>return b\<close> is the same in exercise03 and in templates/template.cpp.  Its counter is
  a word like the rest, so whether the loop is left is part of the result: \<^term>\<open>None\<close> is
  a run that never returns.
\<close>

partial_function (option) fibonacci_loop ::
  "int32 \<Rightarrow> int32 \<Rightarrow> int32 \<Rightarrow> int32 \<Rightarrow> int32 option" where
  "fibonacci_loop n i a b =
     (if i \<le>s n then fibonacci_loop n (i + 1) b (a + b) else Some b)"

declare fibonacci_loop.simps [code]

text \<open>exercise03: \<^verbatim>\<open>if (n <= 0) return 0; if (n == 1) return 1;\<close> and the loop.\<close>

definition fibonacci :: "int32 \<Rightarrow> int32 option" where
  "fibonacci n =
     (if n \<le>s 0 then Some 0
      else if n = 1 then Some 1
      else fibonacci_loop n 2 0 1)"

text \<open>
  templates/template.cpp: \<^verbatim>\<open>if (position == 0) return 0; if (position == 1) return 1;\<close>
  and the loop.
\<close>

definition fibonacci_templates :: "int32 \<Rightarrow> int32 option" where
  "fibonacci_templates position =
     (if position = 0 then Some 0
      else if position = 1 then Some 1
      else fibonacci_loop position 2 0 1)"

text \<open>
  template/cpp-template.cpp: the recursive variant, which throws
  \<^verbatim>\<open>invalid_argument\<close> on a negative argument.
\<close>

lemma sint_add_no_wrap:
  fixes a b :: int32
  assumes "- 2147483648 \<le> sint a + sint b" and "sint a + sint b < 2147483648"
  shows "sint (a + b) = sint a + sint b"
  using assms by (simp add: sint_word_add signed_take_bit_int_eq_self)

lemma sint_sub_no_wrap:
  fixes a b :: int32
  assumes "- 2147483648 \<le> sint a - sint b" and "sint a - sint b < 2147483648"
  shows "sint (a - b) = sint a - sint b"
  using assms by (simp add: sint_word_diff signed_take_bit_int_eq_self)

lemma sint_bounds32:
  fixes a :: int32
  shows "- 2147483648 \<le> sint a" and "sint a < 2147483648"
  using sint_ge [of a] sint_lt [of a] by simp_all

lemma sint_eq_iff32: "sint (a :: int32) = sint b \<longleftrightarrow> a = b"
  by (auto intro: signed_word_eqI)

lemma fibonacci_rec_arg:
  fixes n :: int32
  assumes "\<not> n <s 0" and "n \<noteq> 0"
  shows "sint (n - 1) = sint n - 1" and "n \<noteq> 1 \<Longrightarrow> sint (n - 2) = sint n - 2"
    and "0 < sint n" and "n \<noteq> 1 \<Longrightarrow> 1 < sint n"
proof -
  have "sint n \<noteq> 0" using assms(2) sint_eq_iff32 [of n 0] by simp
  with assms(1) show pos: "0 < sint n" by (simp add: word_sless_alt)
  with sint_bounds32 [of n] show "sint (n - 1) = sint n - 1"
    by (simp add: sint_sub_no_wrap)
  assume "n \<noteq> 1"
  then have "sint n \<noteq> 1" using sint_eq_iff32 [of n 1] by simp
  with pos show "1 < sint n" by simp
  with sint_bounds32 [of n] show "sint (n - 2) = sint n - 2"
    by (simp add: sint_sub_no_wrap)
qed

function fibonacci_cpp_template :: "int32 \<Rightarrow> failure + int32" where
  "fibonacci_cpp_template n =
     (if n <s 0 then Inl InvalidArgument
      else if n = 0 then Inr 0
      else if n = 1 then Inr 1
      else (case fibonacci_cpp_template (n - 1) of
              Inl e \<Rightarrow> Inl e
            | Inr x \<Rightarrow>
                (case fibonacci_cpp_template (n - 2) of
                   Inl e \<Rightarrow> Inl e
                 | Inr y \<Rightarrow> Inr (x + y))))"
  by pat_completeness auto
termination
  by (relation "measure (\<lambda>n. nat (sint n))") (simp_all add: fibonacci_rec_arg)

declare fibonacci_cpp_template.simps [simp del]

text \<open>The Fibonacci numbers modulo \<open>2 ^ 32\<close>, by index (proof device).\<close>

fun fib32 :: "nat \<Rightarrow> int32" where
  "fib32 0 = 0"
| "fib32 (Suc 0) = 1"
| "fib32 (Suc (Suc k)) = fib32 k + fib32 (Suc k)"

lemma fib32_step: "2 \<le> k \<Longrightarrow> fib32 (k - 2) + fib32 (k - 1) = fib32 k"
proof -
  assume "2 \<le> k"
  then obtain j where "k = Suc (Suc j)"
    by (metis Suc_diff_Suc Suc_le_lessD less_imp_Suc_add numeral_2_eq_2 plus_nat.simps(2))
  then show ?thesis by simp
qed

lemma fibonacci_loop_runs:
  assumes "sint n < 2147483647" and "2 \<le> sint i" and "sint i \<le> sint n + 1"
  shows "fibonacci_loop n i (fib32 (nat (sint i) - 2)) (fib32 (nat (sint i) - 1))
           = Some (fib32 (nat (sint n)))"
  using assms
proof (induction "nat (sint n + 1 - sint i)" arbitrary: i)
  case 0
  then have e: "sint i = sint n + 1" by simp
  then have "\<not> i \<le>s n" by (simp add: word_sle_eq)
  moreover have "nat (sint i) - 1 = nat (sint n)" using e "0.prems" by simp
  ultimately show ?case
    by (subst fibonacci_loop.simps) simp
next
  case (Suc d)
  then have le: "sint i \<le> sint n" by simp
  then have c: "i \<le>s n" by (simp add: word_sle_eq)
  have s: "sint (i + 1) = sint i + 1"
    using le Suc.prems sint_bounds32 [of i] by (simp add: sint_add_no_wrap)
  have k: "2 \<le> nat (sint i)" using Suc.prems by simp
  have d: "d = nat (sint n + 1 - sint (i + 1))" using Suc.hyps(2) s by simp
  have "fibonacci_loop n (i + 1) (fib32 (nat (sint (i + 1)) - 2))
          (fib32 (nat (sint (i + 1)) - 1)) = Some (fib32 (nat (sint n)))"
    by (rule Suc.hyps(1) [OF d]) (use s le Suc.prems in simp_all)
  moreover have "nat (sint (i + 1)) - 2 = nat (sint i) - 1"
    and "nat (sint (i + 1)) - 1 = nat (sint i)"
    using s k by simp_all
  ultimately have "fibonacci_loop n (i + 1) (fib32 (nat (sint i) - 1)) (fib32 (nat (sint i)))
      = Some (fib32 (nat (sint n)))"
    by simp
  then show ?case
    using c fib32_step [OF k] by (subst fibonacci_loop.simps) simp
qed

lemma fibonacci_loop_from_2:
  assumes "sint n < 2147483647" and "1 < sint n"
  shows "fibonacci_loop n 2 0 1 = Some (fib32 (nat (sint n)))"
  using fibonacci_loop_runs [of n 2] assms by simp

lemma fibonacci_eq_fib32:
  assumes "0 \<le> sint n" and "sint n < 2147483647"
  shows "fibonacci n = Some (fib32 (nat (sint n)))"
    and "fibonacci_templates n = Some (fib32 (nat (sint n)))"
proof -
  consider "n = 0" | "n = 1" | "n \<noteq> 0" "n \<noteq> 1" by blast
  then have "fibonacci n = Some (fib32 (nat (sint n)))
      \<and> fibonacci_templates n = Some (fib32 (nat (sint n)))"
  proof cases
    case 1
    then show ?thesis by (simp add: fibonacci_def fibonacci_templates_def)
  next
    case 2
    then show ?thesis by (simp add: fibonacci_def fibonacci_templates_def word_sle_eq)
  next
    case 3
    have "\<not> n <s 0" using assms(1) by (simp add: word_sless_alt)
    from fibonacci_rec_arg(4) [OF this 3] have g: "1 < sint n" .
    then have "\<not> n \<le>s 0" by (simp add: word_sle_eq)
    with 3 fibonacci_loop_from_2 [OF assms(2) g] show ?thesis
      by (simp add: fibonacci_def fibonacci_templates_def)
  qed
  then show "fibonacci n = Some (fib32 (nat (sint n)))"
    and "fibonacci_templates n = Some (fib32 (nat (sint n)))"
    by simp_all
qed

lemma fibonacci_loop_INT_MAX_never_returns:
  assumes "fibonacci_loop n i a b = Some y"
  shows "n \<noteq> 0x7FFFFFFF"
proof (rule fibonacci_loop.raw_induct [where P = "\<lambda>n i a b y. n \<noteq> 0x7FFFFFFF", OF _ assms])
  fix f :: "int32 \<Rightarrow> int32 \<Rightarrow> int32 \<Rightarrow> int32 \<Rightarrow> int32 option" and m j c d :: int32 and z :: int32
  assume IH: "\<And>m j c d z. f m j c d = Some z \<Longrightarrow> m \<noteq> 0x7FFFFFFF"
    and body: "(if j \<le>s m then f m (j + 1) d (c + d) else Some d) = Some z"
  show "m \<noteq> 0x7FFFFFFF"
  proof
    assume m: "m = 0x7FFFFFFF"
    have "j \<le>s m" using sint_bounds32 [of j] by (simp add: m word_sle_eq)
    with body have "f m (j + 1) d (c + d) = Some z" by simp
    from IH [OF this] m show False by simp
  qed
qed

lemma fibonacci_INT_MAX:
  shows "fibonacci 0x7FFFFFFF = None" and "fibonacci_templates 0x7FFFFFFF = None"
proof -
  have "fibonacci_loop 0x7FFFFFFF 2 0 1 = None"
    using fibonacci_loop_INT_MAX_never_returns [of "0x7FFFFFFF" 2 0 1] by (cases "fibonacci_loop 0x7FFFFFFF 2 0 1") auto
  then show "fibonacci 0x7FFFFFFF = None" and "fibonacci_templates 0x7FFFFFFF = None"
    by (simp_all add: fibonacci_def fibonacci_templates_def word_sle_eq)
qed

lemma fibonacci_negative:
  assumes "n <s 0"
  shows "fibonacci n = Some 0" and "fibonacci_templates n = Some 1"
    and "fibonacci_cpp_template n = Inl InvalidArgument"
proof -
  from assms have neg: "sint n < 0" by (simp add: word_sless_alt)
  then show "fibonacci n = Some 0" by (simp add: fibonacci_def word_sle_eq)
  from neg have "n \<noteq> 0" "n \<noteq> 1" "\<not> 2 \<le>s n" by (auto simp: word_sle_eq)
  then show "fibonacci_templates n = Some 1"
    by (simp add: fibonacci_templates_def fibonacci_loop.simps)
  from assms show "fibonacci_cpp_template n = Inl InvalidArgument"
    by (simp add: fibonacci_cpp_template.simps)
qed

lemma fibonacci_cpp_template_eq_fib32:
  "0 \<le> sint n \<Longrightarrow> fibonacci_cpp_template n = Inr (fib32 (nat (sint n)))"
proof (induction n rule: fibonacci_cpp_template.induct)
  case (1 n)
  from "1.prems" have nn: "\<not> n <s 0" by (simp add: word_sless_alt)
  consider "n = 0" | "n = 1" | "n \<noteq> 0" "n \<noteq> 1" by blast
  then show ?case
  proof cases
    case 1
    then show ?thesis by (subst fibonacci_cpp_template.simps) simp
  next
    case 2
    then show ?thesis by (subst fibonacci_cpp_template.simps) (simp add: word_sless_alt)
  next
    case 3
    note a = fibonacci_rec_arg [OF nn 3(1)]
    from a(2,4) 3(2) have s: "sint (n - 1) = sint n - 1" "sint (n - 2) = sint n - 2" "1 < sint n"
      using a(1) by simp_all
    have x: "fibonacci_cpp_template (n - 1) = Inr (fib32 (nat (sint n) - 1))"
      using "1.IH"(1) [OF nn 3] s by (simp add: nat_diff_distrib')
    have y: "fibonacci_cpp_template (n - 2) = Inr (fib32 (nat (sint n) - 2))"
      using "1.IH"(2) [OF nn 3 x] s by (simp add: nat_diff_distrib')
    have k: "2 \<le> nat (sint n)" using s by simp
    from nn 3 x y fib32_step [OF k] show ?thesis
      by (subst fibonacci_cpp_template.simps) (simp add: add.commute)
  qed
qed

text \<open>
  Claim C2, as amended.  In both iterative variants \<open>fibonacci 0 = 0\<close>, \<open>fibonacci 1 = 1\<close>,
  and for every \<open>n\<close> with \<open>2 \<le> n < INT_MAX\<close> the three calls return and
  \<open>fibonacci n = fibonacci (n - 1) + fibonacci (n - 2)\<close>, the sum taken in 32 bits.
  The recursive variant satisfies the same equations.
\<close>

theorem fibonacci_recurrence:
  assumes "2 \<le>s n" and "n <s INT_MAX"
  shows "fibonacci 0 = Some 0 \<and> fibonacci 1 = Some 1
       \<and> fibonacci_templates 0 = Some 0 \<and> fibonacci_templates 1 = Some 1
       \<and> (\<exists>x y. fibonacci (n - 1) = Some x \<and> fibonacci (n - 2) = Some y
                \<and> fibonacci n = Some (x + y))
       \<and> (\<exists>x y. fibonacci_templates (n - 1) = Some x \<and> fibonacci_templates (n - 2) = Some y
                \<and> fibonacci_templates n = Some (x + y))
       \<and> fibonacci_cpp_template 0 = Inr 0 \<and> fibonacci_cpp_template 1 = Inr 1
       \<and> (\<exists>x y. fibonacci_cpp_template (n - 1) = Inr x \<and> fibonacci_cpp_template (n - 2) = Inr y
                \<and> fibonacci_cpp_template n = Inr (x + y))"
proof -
  from assms have n: "2 \<le> sint n" "sint n < 2147483647"
    by (simp_all add: word_sle_eq word_sless_alt INT_MAX_def)
  have n1: "sint (n - 1) = sint n - 1" and n2: "sint (n - 2) = sint n - 2"
    using n sint_bounds32 [of n] by (simp_all add: sint_sub_no_wrap)
  have k: "2 \<le> nat (sint n)" using n by simp
  have i1: "nat (sint n - 1) = nat (sint n) - 1" and i2: "nat (sint n - 2) = nat (sint n) - 2"
    using n by simp_all
  have a: "fibonacci n = Some (fib32 (nat (sint n)))"
    and a': "fibonacci_templates n = Some (fib32 (nat (sint n)))"
    using n by (simp_all add: fibonacci_eq_fib32)
  have b: "fibonacci (n - 1) = Some (fib32 (nat (sint n) - 1))"
    and b': "fibonacci_templates (n - 1) = Some (fib32 (nat (sint n) - 1))"
    using fibonacci_eq_fib32 [of "n - 1"] n unfolding n1 i1 by simp_all
  have c: "fibonacci (n - 2) = Some (fib32 (nat (sint n) - 2))"
    and c': "fibonacci_templates (n - 2) = Some (fib32 (nat (sint n) - 2))"
    using fibonacci_eq_fib32 [of "n - 2"] n unfolding n2 i2 by simp_all
  have s: "fib32 (nat (sint n)) = fib32 (nat (sint n) - 1) + fib32 (nat (sint n) - 2)"
    using fib32_step [OF k] by (simp add: add.commute)
  have z: "fibonacci 0 = Some 0 \<and> fibonacci 1 = Some 1
       \<and> fibonacci_templates 0 = Some 0 \<and> fibonacci_templates 1 = Some 1"
    by (simp add: fibonacci_def fibonacci_templates_def word_sle_eq)
  from a b c s have "\<exists>x y. fibonacci (n - 1) = Some x \<and> fibonacci (n - 2) = Some y
                \<and> fibonacci n = Some (x + y)"
    by simp
  moreover from a' b' c' s
  have "\<exists>x y. fibonacci_templates (n - 1) = Some x \<and> fibonacci_templates (n - 2) = Some y
                \<and> fibonacci_templates n = Some (x + y)"
    by simp
  moreover have "fibonacci_cpp_template 0 = Inr 0 \<and> fibonacci_cpp_template 1 = Inr 1"
    by (simp add: fibonacci_cpp_template.simps word_sless_alt)
  moreover have "\<exists>x y. fibonacci_cpp_template (n - 1) = Inr x \<and> fibonacci_cpp_template (n - 2) = Inr y
                \<and> fibonacci_cpp_template n = Inr (x + y)"
  proof -
    have "fibonacci_cpp_template n = Inr (fib32 (nat (sint n)))"
      using n by (simp add: fibonacci_cpp_template_eq_fib32)
    moreover have "fibonacci_cpp_template (n - 1) = Inr (fib32 (nat (sint n) - 1))"
      using fibonacci_cpp_template_eq_fib32 [of "n - 1"] n unfolding n1 i1 by simp
    moreover have "fibonacci_cpp_template (n - 2) = Inr (fib32 (nat (sint n) - 2))"
      using fibonacci_cpp_template_eq_fib32 [of "n - 2"] n unfolding n2 i2 by simp
    ultimately show ?thesis using s by simp
  qed
  ultimately show ?thesis using z by blast
qed

theorem fibonacci_recurrence_witness:
  "(2 :: int32) \<le>s 10 \<and> (10 :: int32) <s INT_MAX
   \<and> fibonacci 8 = Some 21 \<and> fibonacci 9 = Some 34 \<and> fibonacci 10 = Some 55
   \<and> (\<exists>x y. fibonacci (10 - 1) = Some x \<and> fibonacci (10 - 2) = Some y
            \<and> fibonacci 10 = Some (x + y))"
proof -
  have h: "(2 :: int32) \<le>s 10" "(10 :: int32) <s INT_MAX"
    by (simp_all add: INT_MAX_def)
  have e: "fibonacci 8 = Some 21" "fibonacci 9 = Some 34" "fibonacci 10 = Some 55"
    by code_simp+
  from fibonacci_recurrence [OF h] h e show ?thesis by blast
qed

text \<open>
  Claim C2 as stated fails at \<open>n = INT_MAX\<close>: there \<^verbatim>\<open>i <= n\<close> holds for every value of the
  counter, \<^verbatim>\<open>++i\<close> wraps around, and the loop is never left, while the calls at
  \<open>INT_MAX - 1\<close> and \<open>INT_MAX - 2\<close> return.
\<close>

theorem fibonacci_INT_MAX_never_returns:
  "fibonacci 0x7FFFFFFF = None \<and> fibonacci_templates 0x7FFFFFFF = None
   \<and> fibonacci 0x7FFFFFFE \<noteq> None \<and> fibonacci 0x7FFFFFFD \<noteq> None"
proof (intro conjI)
  show "fibonacci 0x7FFFFFFF = None" by (rule fibonacci_INT_MAX(1))
  show "fibonacci_templates 0x7FFFFFFF = None" by (rule fibonacci_INT_MAX(2))
  show "fibonacci 0x7FFFFFFE \<noteq> None"
    using fibonacci_eq_fib32(1) [of "0x7FFFFFFE"] by simp
  show "fibonacci 0x7FFFFFFD \<noteq> None"
    using fibonacci_eq_fib32(1) [of "0x7FFFFFFD"] by simp
qed

text \<open>
  Claim C3.  On a negative argument exercise03 returns 0 and template/cpp-template.cpp
  throws, but templates/template.cpp tests \<^verbatim>\<open>position == 0\<close> only: the loop is
  skipped and \<open>b = 1\<close> is returned.
\<close>

theorem fibonacci_templates_negative_returns_1:
  "fibonacci_templates (- 1) = Some 1 \<and> fibonacci (- 1) = Some 0
   \<and> fibonacci_cpp_template (- 1) = Inl InvalidArgument"
proof -
  have "(- 1 :: int32) <s 0" by (simp add: word_sless_alt)
  then show ?thesis by (simp add: fibonacci_negative)
qed

section \<open>reverseInt (exercise06)\<close>

text \<open>
  The property of this function is about the runs in which no operation leaves the
  range of \<^verbatim>\<open>int\<close>, so here the values are integers and every arithmetic operation of
  the source is checked: a result outside \<open>[-2^31, 2^31 - 1]\<close> ends the run with
  \<^term>\<open>None\<close> (signed overflow is undefined in C++).  The loop runs on \<open>n > 0\<close> only, where
  the truncating \<^verbatim>\<open>n % 10\<close> and \<^verbatim>\<open>n / 10\<close> of C++ are \<open>mod\<close> and \<open>div\<close>.  The variable
  \<^verbatim>\<open>rev\<close> of the source is \<open>rv\<close>.
\<close>

definition int_range :: "int \<Rightarrow> bool" where
  "int_range v \<longleftrightarrow> - 2147483648 \<le> v \<and> v \<le> 2147483647"

definition checked :: "int \<Rightarrow> int option" where
  "checked v = (if int_range v then Some v else None)"

function reverseInt_loop :: "int \<Rightarrow> int \<Rightarrow> int option" where
  "reverseInt_loop n rv =
     (if n > 0
      then (case checked (rv * 10) of
              None \<Rightarrow> None
            | Some t \<Rightarrow>
                (case checked (t + n mod 10) of
                   None \<Rightarrow> None
                 | Some rv' \<Rightarrow> reverseInt_loop (n div 10) rv'))
      else Some rv)"
  by pat_completeness auto
termination
  by (relation "measure (\<lambda>(n, rv). nat n)") auto

definition reverseInt :: "int \<Rightarrow> int option" where
  "reverseInt n =
     (let sign = (if n < 0 then - 1 else 1) in
      case (if n < 0 then checked (- n) else Some n) of
        None \<Rightarrow> None
      | Some m \<Rightarrow>
          (case reverseInt_loop m 0 of
             None \<Rightarrow> None
           | Some rv \<Rightarrow> checked (sign * rv)))"

declare reverseInt_loop.simps [simp del]

text \<open>Proof devices: the loop without the checks, digit lists (lowest digit first).\<close>

function rev_digits :: "int \<Rightarrow> int \<Rightarrow> int" where
  "rev_digits n acc = (if n > 0 then rev_digits (n div 10) (acc * 10 + n mod 10) else acc)"
  by pat_completeness auto
termination
  by (relation "measure (\<lambda>(n, acc). nat n)") auto

function digits :: "int \<Rightarrow> int list" where
  "digits n = (if n > 0 then n mod 10 # digits (n div 10) else [])"
  by pat_completeness auto
termination
  by (relation "measure nat") auto

fun digits_val :: "int list \<Rightarrow> int" where
  "digits_val [] = 0"
| "digits_val (d # ds) = d + 10 * digits_val ds"

definition canonical :: "int list \<Rightarrow> bool" where
  "canonical ds \<longleftrightarrow> list_all (\<lambda>d. 0 \<le> d \<and> d < 10) ds \<and> (ds = [] \<or> last ds \<noteq> 0)"

declare rev_digits.simps [simp del] digits.simps [simp del]

lemma digits_val_digits: "0 \<le> n \<Longrightarrow> digits_val (digits n) = n"
proof (induction n rule: digits.induct)
  case (1 n)
  show ?case
  proof (cases "n > 0")
    case True
    then have "digits_val (digits (n div 10)) = n div 10"
      by (intro "1.IH") simp_all
    with True show ?thesis by (subst digits.simps) simp
  next
    case False
    with "1.prems" show ?thesis by (subst digits.simps) simp
  qed
qed

lemma canonical_digits: "canonical (digits n)"
proof (induction n rule: digits.induct)
  case (1 n)
  show ?case
  proof (cases "n > 0")
    case False
    then show ?thesis by (subst digits.simps) (simp add: canonical_def)
  next
    case True
    note IH = "1.IH" [OF True]
    show ?thesis
    proof (cases "n div 10 > 0")
      case pos: True
      then have "digits (n div 10) \<noteq> []" by (subst digits.simps) simp
      with IH True show ?thesis
        by (subst digits.simps) (simp add: canonical_def)
    next
      case z: False
      then have e: "digits (n div 10) = []" by (subst digits.simps) simp
      from z True have "n < 10" by simp
      with True have "n mod 10 = n" by simp
      with True e show ?thesis
        by (subst digits.simps) (simp add: canonical_def)
    qed
  qed
qed

lemma digits_val_nonneg: "list_all (\<lambda>d. 0 \<le> d \<and> d < 10) ds \<Longrightarrow> 0 \<le> digits_val ds"
  by (induction ds) auto

lemma digits_val_pos: "canonical ds \<Longrightarrow> ds \<noteq> [] \<Longrightarrow> 0 < digits_val ds"
proof (induction ds)
  case Nil
  then show ?case by simp
next
  case (Cons d ds)
  show ?case
  proof (cases "ds = []")
    case True
    with Cons.prems show ?thesis by (simp add: canonical_def)
  next
    case False
    with Cons.prems have "canonical ds" by (simp add: canonical_def)
    from Cons.IH [OF this False] Cons.prems show ?thesis
      by (simp add: canonical_def)
  qed
qed

lemma digits_digits_val: "canonical ds \<Longrightarrow> digits (digits_val ds) = ds"
proof (induction ds)
  case Nil
  then show ?case by (subst digits.simps) simp
next
  case (Cons d ds)
  from Cons.prems have d: "0 \<le> d" "d < 10" by (simp_all add: canonical_def)
  show ?case
  proof (cases "ds = []")
    case True
    with Cons.prems have "d \<noteq> 0" by (simp add: canonical_def)
    with d have "0 < d" "d mod 10 = d" "d div 10 = 0" by simp_all
    then have "digits d = [d]"
      by (subst digits.simps, subst digits.simps) simp
    with True show ?thesis by simp
  next
    case False
    with Cons.prems have c: "canonical ds" by (simp add: canonical_def)
    from digits_val_pos [OF c False] have p: "0 < digits_val ds" .
    with d have "0 < d + 10 * digits_val ds" "(d + 10 * digits_val ds) mod 10 = d"
      "(d + 10 * digits_val ds) div 10 = digits_val ds"
      by simp_all
    with Cons.IH [OF c] show ?thesis
      by (subst digits.simps) simp
  qed
qed

lemma rev_digits_foldl: "rev_digits n acc = foldl (\<lambda>r d. r * 10 + d) acc (digits n)"
proof (induction n acc rule: rev_digits.induct)
  case (1 n acc)
  show ?case
  proof (cases "n > 0")
    case True
    with "1.IH" show ?thesis
      by (subst rev_digits.simps, subst digits.simps) simp
  next
    case False
    then show ?thesis
      by (subst rev_digits.simps, subst digits.simps) simp
  qed
qed

lemma foldl_digits_val:
  "foldl (\<lambda>r d. r * 10 + d) acc ds = digits_val (rev ds) + acc * 10 ^ length ds"
proof (induction ds arbitrary: acc)
  case Nil
  show ?case by simp
next
  case (Cons d ds)
  have v: "\<And>xs. digits_val (xs @ [d]) = digits_val xs + d * 10 ^ length xs"
  proof -
    fix xs show "digits_val (xs @ [d]) = digits_val xs + d * 10 ^ length xs"
      by (induction xs) (simp_all add: algebra_simps)
  qed
  have "foldl (\<lambda>r d. r * 10 + d) acc (d # ds) = foldl (\<lambda>r d. r * 10 + d) (acc * 10 + d) ds"
    by simp
  also have "\<dots> = digits_val (rev ds) + (acc * 10 + d) * 10 ^ length ds"
    by (rule Cons.IH)
  also have "\<dots> = digits_val (rev (d # ds)) + acc * 10 ^ length (d # ds)"
    by (simp add: v algebra_simps)
  finally show ?case .
qed

lemma rev_digits_0: "rev_digits n 0 = digits_val (rev (digits n))"
  by (simp add: rev_digits_foldl foldl_digits_val)

lemma hd_digits: "0 < n \<Longrightarrow> hd (digits n) = n mod 10" and digits_nonempty: "0 < n \<Longrightarrow> digits n \<noteq> []"
  by (subst digits.simps, simp)+

lemma canonical_rev_digits:
  assumes "0 < n" and "n mod 10 \<noteq> 0"
  shows "canonical (rev (digits n))"
proof -
  from canonical_digits [of n] have "list_all (\<lambda>d. 0 \<le> d \<and> d < 10) (rev (digits n))"
    by (simp add: canonical_def list_all_iff)
  moreover have "last (rev (digits n)) \<noteq> 0"
    using assms digits_nonempty [of n] hd_digits [of n] by (simp add: last_rev)
  ultimately show ?thesis by (simp add: canonical_def)
qed

lemma rev_digits_roundtrip:
  assumes "0 < n" and "n mod 10 \<noteq> 0"
  shows "rev_digits (rev_digits n 0) 0 = n" and "0 < rev_digits n 0"
proof -
  note c = canonical_rev_digits [OF assms]
  have "digits (rev_digits n 0) = rev (digits n)"
    unfolding rev_digits_0 using c by (rule digits_digits_val)
  then have "rev_digits (rev_digits n 0) 0 = digits_val (digits n)"
    by (simp add: rev_digits_0 [of "rev_digits n 0"])
  with assms(1) show "rev_digits (rev_digits n 0) 0 = n"
    by (simp add: digits_val_digits)
  show "0 < rev_digits n 0"
    unfolding rev_digits_0 using c digits_nonempty [OF assms(1)] by (intro digits_val_pos) simp_all
qed

lemma reverseInt_loop_Some:
  "reverseInt_loop n rv = Some r \<Longrightarrow> r = rev_digits n rv"
proof (induction n rv rule: reverseInt_loop.induct)
  case (1 n rv)
  show ?case
  proof (cases "n > 0")
    case False
    with "1.prems" show ?thesis
      by (subst rev_digits.simps, subst (asm) reverseInt_loop.simps) simp
  next
    case True
    from "1.prems" True
    have run: "reverseInt_loop (n div 10) (rv * 10 + n mod 10) = Some r"
      and c: "checked (rv * 10) = Some (rv * 10)"
        "checked (rv * 10 + n mod 10) = Some (rv * 10 + n mod 10)"
      by (subst (asm) reverseInt_loop.simps,
          simp add: checked_def split: if_splits option.splits)+
    from "1.IH" [OF True c run] True show ?thesis
      by (subst rev_digits.simps) simp
  qed
qed

lemma rev_digits_mono: "0 \<le> acc \<Longrightarrow> acc \<le> rev_digits n acc"
proof (induction n acc rule: rev_digits.induct)
  case (1 n acc)
  show ?case
  proof (cases "n > 0")
    case False
    then show ?thesis by (subst rev_digits.simps) simp
  next
    case True
    have m: "0 \<le> n mod 10" by simp
    with "1.prems" have "0 \<le> acc * 10 + n mod 10" by simp
    from "1.IH" [OF True this] have "acc * 10 + n mod 10 \<le> rev_digits n acc"
      using True by (subst rev_digits.simps) simp
    with "1.prems" m show ?thesis by simp
  qed
qed

lemma reverseInt_loop_in_range:
  "0 \<le> acc \<Longrightarrow> rev_digits n acc \<le> 2147483647 \<Longrightarrow>
   reverseInt_loop n acc = Some (rev_digits n acc)"
proof (induction n acc rule: rev_digits.induct)
  case (1 n acc)
  show ?case
  proof (cases "n > 0")
    case False
    then show ?thesis
      by (subst rev_digits.simps, subst reverseInt_loop.simps) simp
  next
    case True
    have m: "0 \<le> n mod 10" by simp
    with "1.prems" have nn: "0 \<le> acc * 10 + n mod 10" by simp
    have e: "rev_digits n acc = rev_digits (n div 10) (acc * 10 + n mod 10)"
      using True by (subst rev_digits.simps) simp
    from rev_digits_mono [OF nn, of "n div 10"] "1.prems"(2) e
    have le: "acc * 10 + n mod 10 \<le> 2147483647" by simp
    with m "1.prems"(1) have c: "checked (acc * 10) = Some (acc * 10)"
      "checked (acc * 10 + n mod 10) = Some (acc * 10 + n mod 10)"
      by (simp_all add: checked_def int_range_def)
    from "1.IH" [OF True nn] "1.prems"(2) e
    have "reverseInt_loop (n div 10) (acc * 10 + n mod 10) = Some (rev_digits n acc)"
      by simp
    with True c show ?thesis
      by (subst reverseInt_loop.simps) simp
  qed
qed

lemma reverseInt_loop_range:
  "reverseInt_loop n rv = Some r \<Longrightarrow> int_range rv \<Longrightarrow> int_range r"
proof (induction n rv rule: reverseInt_loop.induct)
  case (1 n rv)
  show ?case
  proof (cases "n > 0")
    case False
    with "1.prems" show ?thesis
      by (subst (asm) reverseInt_loop.simps) simp
  next
    case True
    from "1.prems"(1) True
    have run: "reverseInt_loop (n div 10) (rv * 10 + n mod 10) = Some r"
      and c: "checked (rv * 10) = Some (rv * 10)"
        "checked (rv * 10 + n mod 10) = Some (rv * 10 + n mod 10)"
      by (subst (asm) reverseInt_loop.simps,
          simp add: checked_def split: if_splits option.splits)+
    from c(2) have "int_range (rv * 10 + n mod 10)"
      by (simp add: checked_def split: if_splits)
    from "1.IH" [OF True c run this] show ?thesis .
  qed
qed

lemma reverseInt_positive:
  assumes "0 < n" and "n \<le> 2147483647" and "n mod 10 \<noteq> 0"
    and "reverseInt_loop n 0 = Some r"
  shows "0 < r" and "r \<le> 2147483647" and "reverseInt_loop r 0 = Some n"
proof -
  from reverseInt_loop_Some [OF assms(4)] have r: "r = rev_digits n 0" .
  from rev_digits_roundtrip [OF assms(1,3)] have p: "0 < r"
    and rt: "rev_digits r 0 = n"
    unfolding r by simp_all
  show "0 < r" by (rule p)
  from assms(2) rt have "rev_digits r 0 \<le> 2147483647" by simp
  from reverseInt_loop_in_range [OF _ this] rt show "reverseInt_loop r 0 = Some n"
    by simp
  from reverseInt_loop_range [OF assms(4)] show "r \<le> 2147483647"
    by (simp add: int_range_def)
qed

text \<open>
  Claim C4.  For \<open>x\<close> in the range of \<^verbatim>\<open>int\<close> with no trailing zero, if \<open>reverseInt x\<close> is
  computed without overflow then so is the reversal of its result, and it gives \<open>x\<close>
  back.  With a trailing zero the round trip can fail: 120 goes to 21 and 21 to 12.
  (\<open>x mod 10 \<noteq> 0\<close> says that 10 does not divide \<open>x\<close>, as \<^verbatim>\<open>x % 10 != 0\<close> does in C++.)
\<close>

theorem reverseInt_roundtrip:
  assumes "int_range x" and "x = 0 \<or> x mod 10 \<noteq> 0" and "reverseInt x = Some y"
  shows "reverseInt y = Some x
       \<and> reverseInt 120 = Some 21 \<and> reverseInt 21 = Some 12"
proof -
  have ex: "reverseInt 120 = Some 21 \<and> reverseInt 21 = Some 12"
    by (simp add: reverseInt_def reverseInt_loop.simps checked_def int_range_def)
  consider "x = 0" | "0 < x" | "x < 0" by linarith
  then have "reverseInt y = Some x"
  proof cases
    case 1
    with assms(3) have "y = 0"
      by (simp add: reverseInt_def reverseInt_loop.simps checked_def int_range_def)
    with 1 show ?thesis
      by (simp add: reverseInt_def reverseInt_loop.simps checked_def int_range_def)
  next
    case 2
    with assms(2) have nz: "x mod 10 \<noteq> 0" by simp
    from 2 assms(1) have le: "x \<le> 2147483647" by (simp add: int_range_def)
    from assms(3) 2 obtain r where r: "reverseInt_loop x 0 = Some r" and y: "y = r"
      by (auto simp: reverseInt_def checked_def split: option.splits if_splits)
    from reverseInt_positive [OF 2 le nz r]
    have "0 < r" "r \<le> 2147483647" "reverseInt_loop r 0 = Some x" .
    with assms(1) show ?thesis
      unfolding y by (simp add: reverseInt_def checked_def)
  next
    case 3
    with assms(2) have "x mod 10 \<noteq> 0" by simp
    then have nz: "(- x) mod 10 \<noteq> 0"
      by (simp add: mod_eq_0_iff_dvd)
    from assms(3) 3 obtain r where m: "int_range (- x)"
      and r: "reverseInt_loop (- x) 0 = Some r" and y: "y = - r"
      by (auto simp: reverseInt_def checked_def split: option.splits if_splits)
    from 3 have pos: "0 < - x" by simp
    from m have le: "- x \<le> 2147483647" by (simp add: int_range_def)
    from reverseInt_positive [OF pos le nz r]
    have "0 < r" "r \<le> 2147483647" "reverseInt_loop r 0 = Some (- x)" .
    with assms(1) show ?thesis
      unfolding y by (simp add: reverseInt_def checked_def int_range_def)
  qed
  with ex show ?thesis by simp
qed

theorem reverseInt_roundtrip_witness:
  "int_range (- 123) \<and> (- 123 :: int) mod 10 \<noteq> 0 \<and> reverseInt (- 123) = Some (- 321)
   \<and> reverseInt (- 321) = Some (- 123)"
proof -
  have h: "int_range (- 123)" "(- 123 :: int) = 0 \<or> (- 123 :: int) mod 10 \<noteq> 0"
    "reverseInt (- 123) = Some (- 321)"
    by (simp_all add: reverseInt_def reverseInt_loop.simps checked_def int_range_def)
  from reverseInt_roundtrip [OF h] h show ?thesis by simp
qed

section \<open>findMedianSortedArrays (H03)\<close>

text \<open>
  The elements and the four boundary values are \<^verbatim>\<open>int\<close> words; \<^verbatim>\<open>std::max\<close> and
  \<^verbatim>\<open>std::min\<close> compare them as signed numbers, and the sum of the even case is an \<^verbatim>\<open>int\<close>
  addition.  The sizes and the indices \<open>left\<close>, \<open>right\<close>, \<open>i\<close>, \<open>j\<close> are integers; on the
  non-negative values they take here the truncating \<^verbatim>\<open>/\<close> and \<^verbatim>\<open>%\<close> are \<open>div\<close> and \<open>mod\<close>.
  The \<^verbatim>\<open>double\<close> returned is an \<^verbatim>\<open>int\<close> or half of one, which a \<^verbatim>\<open>double\<close> holds exactly:
  it is modelled by that real number.  A read outside a vector is \<^term>\<open>OutOfRange\<close>.
  The variable \<^verbatim>\<open>total\<close> of the source is \<open>total'\<close>.
\<close>

definition std_max :: "int32 \<Rightarrow> int32 \<Rightarrow> int32" where
  "std_max a b = (if a <s b then b else a)"

definition std_min :: "int32 \<Rightarrow> int32 \<Rightarrow> int32" where
  "std_min a b = (if b <s a then b else a)"

text \<open>One evaluation of the loop body: the four boundary values for the partition \<open>i\<close>, \<open>j\<close>.\<close>

definition findMedianSortedArrays_bounds ::
  "int32 list \<Rightarrow> int32 list \<Rightarrow> int \<Rightarrow> int \<Rightarrow> failure + (int32 \<times> int32 \<times> int32 \<times> int32)" where
  "findMedianSortedArrays_bounds nums1 nums2 i j =
     (case (if i > 0 then at_index nums1 (i - 1) else Inr INT_MIN) of
        Inl e \<Rightarrow> Inl e
      | Inr nums1_left \<Rightarrow>
     (case (if i < int (length nums1) then at_index nums1 i else Inr INT_MAX) of
        Inl e \<Rightarrow> Inl e
      | Inr nums1_right \<Rightarrow>
     (case (if j > 0 then at_index nums2 (j - 1) else Inr INT_MIN) of
        Inl e \<Rightarrow> Inl e
      | Inr nums2_left \<Rightarrow>
     (case (if j < int (length nums2) then at_index nums2 j else Inr INT_MAX) of
        Inl e \<Rightarrow> Inl e
      | Inr nums2_right \<Rightarrow> Inr (nums1_left, nums1_right, nums2_left, nums2_right)))))"

function findMedianSortedArrays_loop ::
  "int32 list \<Rightarrow> int32 list \<Rightarrow> int \<Rightarrow> int \<Rightarrow> int \<Rightarrow> int \<Rightarrow> failure + real" where
  "findMedianSortedArrays_loop nums1 nums2 total' half left right =
     (if left \<le> right
      then (let i = left + (right - left) div 2; j = half - i in
            case findMedianSortedArrays_bounds nums1 nums2 i j of
              Inl e \<Rightarrow> Inl e
            | Inr (nums1_left, nums1_right, nums2_left, nums2_right) \<Rightarrow>
                if nums1_left \<le>s nums2_right \<and> nums2_left \<le>s nums1_right
                then if total' mod 2 = 1
                     then Inr (real_of_int (sint (std_max nums1_left nums2_left)))
                     else Inr (real_of_int (sint (std_max nums1_left nums2_left
                                                   + std_min nums1_right nums2_right)) / 2)
                else if nums2_right <s nums1_left
                then findMedianSortedArrays_loop nums1 nums2 total' half left (i - 1)
                else findMedianSortedArrays_loop nums1 nums2 total' half (i + 1) right)
      else Inr 0)"
  by pat_completeness auto
termination
  by (relation "measure (\<lambda>(nums1, nums2, total', half, left, right). nat (right - left + 1))")
     auto

text \<open>The body after the test that swaps the operands, for \<open>nums1\<close> not longer than \<open>nums2\<close>.\<close>

definition findMedianSortedArrays_ordered :: "int32 list \<Rightarrow> int32 list \<Rightarrow> failure + real" where
  "findMedianSortedArrays_ordered nums1 nums2 =
     (let m = int (length nums1); n = int (length nums2);
          total' = m + n; half = (total' + 1) div 2
      in findMedianSortedArrays_loop nums1 nums2 total' half 0 m)"

definition findMedianSortedArrays :: "int32 list \<Rightarrow> int32 list \<Rightarrow> failure + real" where
  "findMedianSortedArrays nums1 nums2 =
     (if length nums1 > length nums2
      then findMedianSortedArrays_ordered nums2 nums1
      else findMedianSortedArrays_ordered nums1 nums2)"

declare findMedianSortedArrays_loop.simps [simp del]

text \<open>
  Claim C10.  On two empty vectors the first partition \<open>i = j = 0\<close> has the four sentinels
  as its boundary values, the test succeeds, the total is even, and the value returned
  is \<open>(INT_MIN + INT_MAX) / 2.0 = -0.5\<close>: neither \<open>0.0\<close> nor a failure.
\<close>

theorem findMedianSortedArrays_empty:
  "findMedianSortedArrays [] [] = Inr (real_of_int (sint (INT_MIN + INT_MAX)) / 2)
   \<and> findMedianSortedArrays [] [] = Inr (- 0.5)
   \<and> findMedianSortedArrays [] [] \<noteq> Inr 0"
  by (simp add: findMedianSortedArrays_def findMedianSortedArrays_ordered_def
      findMedianSortedArrays_loop.simps findMedianSortedArrays_bounds_def
      std_max_def std_min_def INT_MIN_def INT_MAX_def word_sle_eq word_sless_alt)

section \<open>minDistance (H06)\<close>

text \<open>
  The table \<open>dp\<close> is a list of \<open>m + 1\<close> rows of \<open>n + 1\<close> cells, updated in place by the four
  loops of the source, each a recursive function on its counter.  All indices the loops
  use are inside the table.  A cell is an integer: it never exceeds the larger of the
  two lengths.  \<^verbatim>\<open>std::min\<close> of the three candidates is \<^term>\<open>min\<close> twice.  The table
  when the loops are over is \<open>minDistance_table\<close>; the function returns its cell
  \<^verbatim>\<open>dp[m][n]\<close>.
\<close>

function minDistance_base_rows :: "int list list \<Rightarrow> nat \<Rightarrow> nat \<Rightarrow> int list list" where
  "minDistance_base_rows dp m i =
     (if i \<le> m
      then minDistance_base_rows (dp[i := (dp ! i)[0 := int i]]) m (i + 1)
      else dp)"
  by pat_completeness auto
termination
  by (relation "measure (\<lambda>(dp, m, i). m + 1 - i)") auto

function minDistance_base_cols :: "int list list \<Rightarrow> nat \<Rightarrow> nat \<Rightarrow> int list list" where
  "minDistance_base_cols dp n j =
     (if j \<le> n
      then minDistance_base_cols (dp[0 := (dp ! 0)[j := int j]]) n (j + 1)
      else dp)"
  by pat_completeness auto
termination
  by (relation "measure (\<lambda>(dp, n, j). n + 1 - j)") auto

definition minDistance_cell :: "string \<Rightarrow> string \<Rightarrow> int list list \<Rightarrow> nat \<Rightarrow> nat \<Rightarrow> int" where
  "minDistance_cell word1 word2 dp i j =
     (if word1 ! (i - 1) = word2 ! (j - 1)
      then dp ! (i - 1) ! (j - 1)
      else min (dp ! (i - 1) ! j + 1) (min (dp ! i ! (j - 1) + 1) (dp ! (i - 1) ! (j - 1) + 1)))"

function minDistance_fill_row ::
  "string \<Rightarrow> string \<Rightarrow> int list list \<Rightarrow> nat \<Rightarrow> nat \<Rightarrow> nat \<Rightarrow> int list list" where
  "minDistance_fill_row word1 word2 dp i n j =
     (if j \<le> n
      then minDistance_fill_row word1 word2
             (dp[i := (dp ! i)[j := minDistance_cell word1 word2 dp i j]]) i n (j + 1)
      else dp)"
  by pat_completeness auto
termination
  by (relation "measure (\<lambda>(word1, word2, dp, i, n, j). n + 1 - j)") auto

function minDistance_fill ::
  "string \<Rightarrow> string \<Rightarrow> int list list \<Rightarrow> nat \<Rightarrow> nat \<Rightarrow> nat \<Rightarrow> int list list" where
  "minDistance_fill word1 word2 dp m n i =
     (if i \<le> m
      then minDistance_fill word1 word2 (minDistance_fill_row word1 word2 dp i n 1) m n (i + 1)
      else dp)"
  by pat_completeness auto
termination
  by (relation "measure (\<lambda>(word1, word2, dp, m, n, i). m + 1 - i)") auto

definition minDistance_table :: "string \<Rightarrow> string \<Rightarrow> int list list" where
  "minDistance_table word1 word2 =
     (let m = length word1; n = length word2;
          dp = replicate (m + 1) (replicate (n + 1) 0);
          dp = minDistance_base_rows dp m 0;
          dp = minDistance_base_cols dp n 0
      in minDistance_fill word1 word2 dp m n 1)"

definition minDistance :: "string \<Rightarrow> string \<Rightarrow> int" where
  "minDistance word1 word2 = minDistance_table word1 word2 ! length word1 ! length word2"

declare minDistance_base_rows.simps [simp del] minDistance_base_cols.simps [simp del]
  minDistance_fill_row.simps [simp del] minDistance_fill.simps [simp del]

text \<open>
  The three-way recurrence in the words of the specification, as a function of the two
  indices: the base row and the base column hold the index; where the two characters
  agree the cell is the diagonal one; elsewhere it is one more than the least of the
  cell above (deletion), the cell to the left (insertion) and the diagonal one
  (substitution).
\<close>

fun edit_recurrence :: "string \<Rightarrow> string \<Rightarrow> nat \<Rightarrow> nat \<Rightarrow> int" where
  "edit_recurrence word1 word2 0 j = int j"
| "edit_recurrence word1 word2 (Suc i) 0 = int (Suc i)"
| "edit_recurrence word1 word2 (Suc i) (Suc j) =
     (if word1 ! i = word2 ! j
      then edit_recurrence word1 word2 i j
      else min (edit_recurrence word1 word2 i (Suc j) + 1)
             (min (edit_recurrence word1 word2 (Suc i) j + 1) (edit_recurrence word1 word2 i j + 1)))"

text \<open>The shape of the table, and the cells that hold their final value when the loops
  are at row \<open>i\<close> and column \<open>j\<close>.\<close>

definition table_shape :: "int list list \<Rightarrow> nat \<Rightarrow> nat \<Rightarrow> bool" where
  "table_shape dp m n \<longleftrightarrow> length dp = m + 1 \<and> (\<forall>a \<le> m. length (dp ! a) = n + 1)"

definition table_filled ::
  "string \<Rightarrow> string \<Rightarrow> int list list \<Rightarrow> nat \<Rightarrow> nat \<Rightarrow> nat \<Rightarrow> nat \<Rightarrow> bool" where
  "table_filled word1 word2 dp m n i j \<longleftrightarrow>
     table_shape dp m n \<and>
     (\<forall>a \<le> m. \<forall>b \<le> n. a < i \<or> (a = i \<and> b < j) \<or> b = 0 \<longrightarrow>
        dp ! a ! b = edit_recurrence word1 word2 a b)"

lemma table_update_shape:
  assumes "table_shape dp m n" and "i \<le> m"
  shows "table_shape (dp[i := (dp ! i)[j := v]]) m n"
  using assms by (auto simp: table_shape_def nth_list_update)

lemma table_update_nth:
  assumes "table_shape dp m n" and "i \<le> m" and "j \<le> n" and "a \<le> m" and "b \<le> n"
  shows "dp[i := (dp ! i)[j := v]] ! a ! b = (if a = i \<and> b = j then v else dp ! a ! b)"
  using assms by (auto simp: table_shape_def nth_list_update)

lemma minDistance_base_rows_nth:
  assumes "table_shape dp m n"
  shows "table_shape (minDistance_base_rows dp m i) m n
       \<and> (\<forall>a \<le> m. \<forall>b \<le> n. minDistance_base_rows dp m i ! a ! b
              = (if b = 0 \<and> i \<le> a then int a else dp ! a ! b))"
  using assms
proof (induction dp m i rule: minDistance_base_rows.induct)
  case (1 dp m i)
  show ?case
  proof (cases "i \<le> m")
    case False
    with "1.prems" show ?thesis
      by (subst (1 2) minDistance_base_rows.simps) simp
  next
    case True
    let ?dp = "dp[i := (dp ! i)[0 := int i]]"
    have sh: "table_shape ?dp m n"
      using "1.prems" True by (rule table_update_shape)
    note IH = "1.IH" [OF True sh]
    have e: "minDistance_base_rows dp m i = minDistance_base_rows ?dp m (i + 1)"
      using True by (subst minDistance_base_rows.simps) simp
    have "\<forall>a \<le> m. \<forall>b \<le> n. minDistance_base_rows ?dp m (i + 1) ! a ! b
              = (if b = 0 \<and> i \<le> a then int a else dp ! a ! b)"
    proof (intro allI impI)
      fix a b assume ab: "a \<le> m" "b \<le> n"
      with IH have "minDistance_base_rows ?dp m (i + 1) ! a ! b
          = (if b = 0 \<and> i + 1 \<le> a then int a else ?dp ! a ! b)"
        by blast
      also have "?dp ! a ! b = (if a = i \<and> b = 0 then int i else dp ! a ! b)"
        using "1.prems" True _ ab by (rule table_update_nth) simp
      finally show "minDistance_base_rows ?dp m (i + 1) ! a ! b
              = (if b = 0 \<and> i \<le> a then int a else dp ! a ! b)"
        by auto
    qed
    with IH show ?thesis unfolding e by blast
  qed
qed

lemma minDistance_base_cols_nth:
  assumes "table_shape dp m n"
  shows "table_shape (minDistance_base_cols dp n j) m n
       \<and> (\<forall>a \<le> m. \<forall>b \<le> n. minDistance_base_cols dp n j ! a ! b
              = (if a = 0 \<and> j \<le> b then int b else dp ! a ! b))"
  using assms
proof (induction dp n j rule: minDistance_base_cols.induct)
  case (1 dp n j)
  show ?case
  proof (cases "j \<le> n")
    case False
    with "1.prems" show ?thesis
      by (subst (1 2) minDistance_base_cols.simps) simp
  next
    case True
    let ?dp = "dp[0 := (dp ! 0)[j := int j]]"
    have sh: "table_shape ?dp m n"
      using "1.prems" by (rule table_update_shape) simp
    note IH = "1.IH" [OF True sh]
    have e: "minDistance_base_cols dp n j = minDistance_base_cols ?dp n (j + 1)"
      using True by (subst minDistance_base_cols.simps) simp
    have "\<forall>a \<le> m. \<forall>b \<le> n. minDistance_base_cols ?dp n (j + 1) ! a ! b
              = (if a = 0 \<and> j \<le> b then int b else dp ! a ! b)"
    proof (intro allI impI)
      fix a b assume ab: "a \<le> m" "b \<le> n"
      with IH have "minDistance_base_cols ?dp n (j + 1) ! a ! b
          = (if a = 0 \<and> j + 1 \<le> b then int b else ?dp ! a ! b)"
        by blast
      also have "?dp ! a ! b = (if a = 0 \<and> b = j then int j else dp ! a ! b)"
        using "1.prems" _ True ab by (rule table_update_nth) simp
      finally show "minDistance_base_cols ?dp n (j + 1) ! a ! b
              = (if a = 0 \<and> j \<le> b then int b else dp ! a ! b)"
        by auto
    qed
    with IH show ?thesis unfolding e by blast
  qed
qed

lemma table_filledD:
  assumes "table_filled word1 word2 dp m n i j" and "a \<le> m" and "b \<le> n"
    and "a < i \<or> (a = i \<and> b < j) \<or> b = 0"
  shows "dp ! a ! b = edit_recurrence word1 word2 a b"
  using assms unfolding table_filled_def by blast

lemma minDistance_cell_filled:
  assumes f: "table_filled word1 word2 dp m n i j"
    and i: "1 \<le> i" "i \<le> m" and j: "1 \<le> j" "j \<le> n"
  shows "minDistance_cell word1 word2 dp i j = edit_recurrence word1 word2 i j"
proof -
  obtain i' j' where e: "i = Suc i'" "j = Suc j'"
    using i j by (metis One_nat_def Suc_le_D)
  have "dp ! i' ! j' = edit_recurrence word1 word2 i' j'"
    "dp ! i' ! Suc j' = edit_recurrence word1 word2 i' (Suc j')"
    "dp ! Suc i' ! j' = edit_recurrence word1 word2 (Suc i') j'"
    by (rule table_filledD [OF f]; use i j e in simp)+
  then show ?thesis
    by (simp add: minDistance_cell_def e)
qed

lemma minDistance_fill_row_filled:
  assumes "table_filled word1 word2 dp m n i j" and "1 \<le> i" and "i \<le> m" and "1 \<le> j"
  shows "table_filled word1 word2 (minDistance_fill_row word1 word2 dp i n j) m n (i + 1) 1"
  using assms
proof (induction word1 word2 dp i n j rule: minDistance_fill_row.induct)
  case (1 word1 word2 dp i n j)
  show ?case
  proof (cases "j \<le> n")
    case False
    have "table_filled word1 word2 dp m n (i + 1) 1"
      unfolding table_filled_def
    proof (intro conjI allI impI)
      show "table_shape dp m n" using "1.prems"(1) by (simp add: table_filled_def)
      fix a b assume ab: "a \<le> m" "b \<le> n" and c: "a < i + 1 \<or> (a = i + 1 \<and> b < 1) \<or> b = 0"
      from c ab False have "a < i \<or> (a = i \<and> b < j) \<or> b = 0" by auto
      with "1.prems"(1) ab show "dp ! a ! b = edit_recurrence word1 word2 a b"
        by (rule table_filledD)
    qed
    with False show ?thesis
      by (subst minDistance_fill_row.simps) simp
  next
    case True
    let ?v = "minDistance_cell word1 word2 dp i j"
    let ?dp = "dp[i := (dp ! i)[j := ?v]]"
    have v: "?v = edit_recurrence word1 word2 i j"
      using "1.prems" True by (intro minDistance_cell_filled)
    have sh: "table_shape dp m n" using "1.prems"(1) by (simp add: table_filled_def)
    have sh': "table_shape ?dp m n"
      using sh "1.prems"(3) by (rule table_update_shape)
    have "\<forall>a \<le> m. \<forall>b \<le> n. a < i \<or> (a = i \<and> b < j + 1) \<or> b = 0 \<longrightarrow>
        ?dp ! a ! b = edit_recurrence word1 word2 a b"
    proof (intro allI impI)
      fix a b assume ab: "a \<le> m" "b \<le> n" and c: "a < i \<or> (a = i \<and> b < j + 1) \<or> b = 0"
      have u: "?dp ! a ! b = (if a = i \<and> b = j then ?v else dp ! a ! b)"
        using sh "1.prems"(3) True ab by (rule table_update_nth)
      show "?dp ! a ! b = edit_recurrence word1 word2 a b"
      proof (cases "a = i \<and> b = j")
        case True
        with u v show ?thesis by simp
      next
        case False
        with c have "a < i \<or> (a = i \<and> b < j) \<or> b = 0" by auto
        with "1.prems"(1) ab have "dp ! a ! b = edit_recurrence word1 word2 a b"
          by (rule table_filledD)
        with u False show ?thesis by simp
      qed
    qed
    with sh' have f: "table_filled word1 word2 ?dp m n i (j + 1)"
      by (simp add: table_filled_def)
    have "table_filled word1 word2 (minDistance_fill_row word1 word2 ?dp i n (j + 1)) m n (i + 1) 1"
      using True f "1.prems"(2,3) by (intro "1.IH") simp_all
    with True show ?thesis
      by (subst minDistance_fill_row.simps) simp
  qed
qed

lemma minDistance_fill_filled:
  assumes "table_filled word1 word2 dp m n i 1" and "1 \<le> i"
  shows "table_filled word1 word2 (minDistance_fill word1 word2 dp m n i) m n (m + 1) 1"
  using assms
proof (induction word1 word2 dp m n i rule: minDistance_fill.induct)
  case (1 word1 word2 dp m n i)
  show ?case
  proof (cases "i \<le> m")
    case False
    have "table_filled word1 word2 dp m n (m + 1) 1"
      unfolding table_filled_def
    proof (intro conjI allI impI)
      show "table_shape dp m n" using "1.prems"(1) by (simp add: table_filled_def)
      fix a b assume ab: "a \<le> m" "b \<le> n"
      from ab False have "a < i \<or> (a = i \<and> b < 1) \<or> b = 0" by auto
      with "1.prems"(1) ab show "dp ! a ! b = edit_recurrence word1 word2 a b"
        by (rule table_filledD)
    qed
    with False show ?thesis
      by (subst minDistance_fill.simps) simp
  next
    case True
    have "table_filled word1 word2 (minDistance_fill_row word1 word2 dp i n 1) m n (i + 1) 1"
      using "1.prems" True by (intro minDistance_fill_row_filled) simp_all
    then have "table_filled word1 word2
        (minDistance_fill word1 word2 (minDistance_fill_row word1 word2 dp i n 1) m n (i + 1))
        m n (m + 1) 1"
      using True by (intro "1.IH") simp_all
    with True show ?thesis
      by (subst minDistance_fill.simps) simp
  qed
qed

lemma minDistance_table_filled:
  "table_filled word1 word2 (minDistance_table word1 word2) (length word1) (length word2)
     (length word1 + 1) 1"
proof -
  define m n where "m = length word1" and "n = length word2"
  define dp0 :: "int list list" where "dp0 = replicate (m + 1) (replicate (n + 1) 0)"
  define dp1 where "dp1 = minDistance_base_rows dp0 m 0"
  define dp2 where "dp2 = minDistance_base_cols dp1 n 0"
  define dp3 where "dp3 = minDistance_fill word1 word2 dp2 m n 1"
  have "\<And>a. a \<le> m \<Longrightarrow> dp0 ! a = replicate (n + 1) 0"
    unfolding dp0_def by (rule nth_replicate) simp
  moreover have "length dp0 = m + 1"
    unfolding dp0_def by (rule length_replicate)
  ultimately have s0: "table_shape dp0 m n"
    by (simp add: table_shape_def)
  have z0: "\<And>a b. a \<le> m \<Longrightarrow> b \<le> n \<Longrightarrow> dp0 ! a ! b = 0"
  proof -
    fix a b assume "a \<le> m" "b \<le> n"
    then have "dp0 ! a = replicate (n + 1) 0" "b < n + 1"
      unfolding dp0_def by (simp_all del: replicate_Suc)
    then show "dp0 ! a ! b = 0" by (simp del: replicate_Suc)
  qed
  from minDistance_base_rows_nth [OF s0, of 0]
  have s1: "table_shape dp1 m n"
    and r1: "\<And>a b. a \<le> m \<Longrightarrow> b \<le> n \<Longrightarrow> dp1 ! a ! b = (if b = 0 then int a else dp0 ! a ! b)"
    unfolding dp1_def by simp_all
  from minDistance_base_cols_nth [OF s1, of 0]
  have s2: "table_shape dp2 m n"
    and r2: "\<And>a b. a \<le> m \<Longrightarrow> b \<le> n \<Longrightarrow> dp2 ! a ! b = (if a = 0 then int b else dp1 ! a ! b)"
    unfolding dp2_def by simp_all
  have "\<forall>a \<le> m. \<forall>b \<le> n. a < 1 \<or> (a = 1 \<and> b < 1) \<or> b = 0 \<longrightarrow>
        dp2 ! a ! b = edit_recurrence word1 word2 a b"
  proof (intro allI impI)
    fix a b assume ab: "a \<le> m" "b \<le> n" and c: "a < 1 \<or> (a = 1 \<and> b < 1) \<or> b = 0"
    then consider "a = 0" | "a \<noteq> 0" "b = 0" by auto
    then show "dp2 ! a ! b = edit_recurrence word1 word2 a b"
    proof cases
      case 1
      with r2 [OF ab] show ?thesis by simp
    next
      case 2
      then obtain a' where "a = Suc a'" by (cases a) auto
      with 2 r2 [OF ab] r1 [OF ab] show ?thesis by simp
    qed
  qed
  with s2 have "table_filled word1 word2 dp2 m n 1 1"
    by (simp add: table_filled_def)
  then have "table_filled word1 word2 dp3 m n (m + 1) 1"
    unfolding dp3_def by (rule minDistance_fill_filled) simp
  moreover have "minDistance_table word1 word2 = dp3"
    by (simp add: minDistance_table_def Let_def dp3_def dp2_def dp1_def dp0_def m_def n_def)
  ultimately show ?thesis
    by (simp add: m_def n_def)
qed

lemma minDistance_table_cell:
  assumes "i \<le> length word1" and "j \<le> length word2"
  shows "minDistance_table word1 word2 ! i ! j = edit_recurrence word1 word2 i j"
proof -
  from assms have "i < length word1 + 1 \<or> (i = length word1 + 1 \<and> j < 1) \<or> j = 0"
    by simp
  with minDistance_table_filled assms show ?thesis
    by (rule table_filledD)
qed

lemma minDistance_table_shape:
  "length (minDistance_table word1 word2) = length word1 + 1"
  "i \<le> length word1 \<Longrightarrow> length (minDistance_table word1 word2 ! i) = length word2 + 1"
  using minDistance_table_filled [of word1 word2]
  by (simp_all add: table_filled_def table_shape_def)

lemma minDistance_edit_recurrence:
  "minDistance word1 word2 = edit_recurrence word1 word2 (length word1) (length word2)"
  unfolding minDistance_def by (rule minDistance_table_cell) simp_all

lemma edit_recurrence_same: "edit_recurrence s s i i = 0"
  by (induction i) simp_all

text \<open>
  Claim C5.  The function returns the cell \<open>dp[m][n]\<close> of a table of \<open>m + 1\<close> rows of \<open>n + 1\<close>
  cells that is the three-way table: column 0 and row 0 hold the index, and every other
  cell is the diagonal one where the two characters agree and one more than the least of
  the cells above, to the left and on the diagonal where they differ.  So the value
  returned is the one the recurrence of the specification gives, the distance from the
  empty string to \<open>s\<close> is the length of \<open>s\<close>, the distance from \<open>s\<close> to itself is 0, and
  the distance from \<^verbatim>\<open>horse\<close> to \<^verbatim>\<open>ros\<close> is 3.
\<close>

theorem minDistance_empty_and_same:
  "minDistance [] s = int (length s) \<and>
   minDistance s s = 0 \<and>
   minDistance word1 word2 = minDistance_table word1 word2 ! length word1 ! length word2 \<and>
   length (minDistance_table word1 word2) = length word1 + 1 \<and>
   (\<forall>i \<le> length word1. length (minDistance_table word1 word2 ! i) = length word2 + 1) \<and>
   (\<forall>i \<le> length word1. minDistance_table word1 word2 ! i ! 0 = int i) \<and>
   (\<forall>j \<le> length word2. minDistance_table word1 word2 ! 0 ! j = int j) \<and>
   (\<forall>i < length word1. \<forall>j < length word2.
      minDistance_table word1 word2 ! Suc i ! Suc j =
        (if word1 ! i = word2 ! j
         then minDistance_table word1 word2 ! i ! j
         else min (minDistance_table word1 word2 ! i ! Suc j + 1)
                (min (minDistance_table word1 word2 ! Suc i ! j + 1)
                   (minDistance_table word1 word2 ! i ! j + 1)))) \<and>
   minDistance word1 word2 = edit_recurrence word1 word2 (length word1) (length word2) \<and>
   minDistance ''horse'' ''ros'' = 3"
proof (intro conjI allI impI)
  show "minDistance [] s = int (length s)"
    by (simp add: minDistance_edit_recurrence)
  show "minDistance s s = 0"
    by (simp add: minDistance_edit_recurrence edit_recurrence_same)
  show "minDistance word1 word2 = minDistance_table word1 word2 ! length word1 ! length word2"
    by (rule minDistance_def)
  show "length (minDistance_table word1 word2) = length word1 + 1"
    by (rule minDistance_table_shape)
  show "minDistance word1 word2 = edit_recurrence word1 word2 (length word1) (length word2)"
    by (rule minDistance_edit_recurrence)
  show "minDistance ''horse'' ''ros'' = 3"
    by (simp add: minDistance_edit_recurrence)
next
  fix i assume "i \<le> length word1"
  then show "length (minDistance_table word1 word2 ! i) = length word2 + 1"
    by (rule minDistance_table_shape)
next
  fix i assume "i \<le> length word1"
  then have "minDistance_table word1 word2 ! i ! 0 = edit_recurrence word1 word2 i 0"
    by (rule minDistance_table_cell) simp
  then show "minDistance_table word1 word2 ! i ! 0 = int i"
    by (cases i) simp_all
next
  fix j assume "j \<le> length word2"
  with minDistance_table_cell [of 0 word1 j word2]
  show "minDistance_table word1 word2 ! 0 ! j = int j"
    by simp
next
  fix i j assume ij: "i < length word1" "j < length word2"
  then have "minDistance_table word1 word2 ! Suc i ! Suc j = edit_recurrence word1 word2 (Suc i) (Suc j)"
    and "minDistance_table word1 word2 ! i ! j = edit_recurrence word1 word2 i j"
    and "minDistance_table word1 word2 ! i ! Suc j = edit_recurrence word1 word2 i (Suc j)"
    and "minDistance_table word1 word2 ! Suc i ! j = edit_recurrence word1 word2 (Suc i) j"
    by (simp_all add: minDistance_table_cell)
  then show "minDistance_table word1 word2 ! Suc i ! Suc j =
        (if word1 ! i = word2 ! j
         then minDistance_table word1 word2 ! i ! j
         else min (minDistance_table word1 word2 ! i ! Suc j + 1)
                (min (minDistance_table word1 word2 ! Suc i ! j + 1)
                   (minDistance_table word1 word2 ! i ! j + 1)))"
    by simp
qed

theorem minDistance_empty_and_same_witness:
  "minDistance [] ''ab'' = 2 \<and>
   minDistance ''ab'' ''ab'' = 0 \<and>
   minDistance ''horse'' ''ros'' = minDistance_table ''horse'' ''ros'' ! 5 ! 3 \<and>
   length (minDistance_table ''horse'' ''ros'') = 6 \<and>
   (5 :: nat) \<le> length ''horse'' \<and>
   length (minDistance_table ''horse'' ''ros'' ! 5) = 4 \<and>
   minDistance_table ''horse'' ''ros'' ! 5 ! 0 = 5 \<and>
   (3 :: nat) \<le> length ''ros'' \<and>
   minDistance_table ''horse'' ''ros'' ! 0 ! 3 = 3 \<and>
   (3 :: nat) < length ''horse'' \<and> (2 :: nat) < length ''ros'' \<and>
   ''horse'' ! 3 = ''ros'' ! 2 \<and>
   minDistance_table ''horse'' ''ros'' ! 4 ! 3 = minDistance_table ''horse'' ''ros'' ! 3 ! 2 \<and>
   (4 :: nat) < length ''horse'' \<and>
   ''horse'' ! 4 \<noteq> ''ros'' ! 2 \<and>
   minDistance_table ''horse'' ''ros'' ! 5 ! 3 =
     min (minDistance_table ''horse'' ''ros'' ! 4 ! 3 + 1)
       (min (minDistance_table ''horse'' ''ros'' ! 5 ! 2 + 1)
          (minDistance_table ''horse'' ''ros'' ! 4 ! 2 + 1)) \<and>
   minDistance ''horse'' ''ros'' = 3"
proof -
  note t = minDistance_empty_and_same [of "''ab''" "''horse''" "''ros''"]
  note t1 = t [THEN conjunct1] and r1 = t [THEN conjunct2]
  note t2 = r1 [THEN conjunct1] and r2 = r1 [THEN conjunct2]
  note t3 = r2 [THEN conjunct1] and r3 = r2 [THEN conjunct2]
  note t4 = r3 [THEN conjunct1] and r4 = r3 [THEN conjunct2]
  note t5 = r4 [THEN conjunct1] and r5 = r4 [THEN conjunct2]
  note t6 = r5 [THEN conjunct1] and r6 = r5 [THEN conjunct2]
  note t7 = r6 [THEN conjunct1] and r7 = r6 [THEN conjunct2]
  note t8 = r7 [THEN conjunct1] and r8 = r7 [THEN conjunct2]
  note t10 = r8 [THEN conjunct2]
  have l: "length ''horse'' = 5" "length ''ros'' = 3" "(5 :: nat) = Suc 4" "(4 :: nat) = Suc 3"
    "(3 :: nat) = Suc 2"
    by simp_all
  have c: "''horse'' ! 3 = ''ros'' ! 2" "''horse'' ! 4 \<noteq> ''ros'' ! 2"
    by (simp_all add: eval_nat_numeral)
  from t1 have a1: "minDistance [] ''ab'' = 2" by simp
  from t3 have a3: "minDistance ''horse'' ''ros'' = minDistance_table ''horse'' ''ros'' ! 5 ! 3"
    by (simp only: l(1,2))
  from t4 have a4: "length (minDistance_table ''horse'' ''ros'') = 6" by simp
  from t5 [rule_format, of 5] have a5: "length (minDistance_table ''horse'' ''ros'' ! 5) = 4"
    by simp
  from t6 [rule_format, of 5] have a6: "minDistance_table ''horse'' ''ros'' ! 5 ! 0 = 5"
    by simp
  from t7 [rule_format, of 3] have a7: "minDistance_table ''horse'' ''ros'' ! 0 ! 3 = 3"
    by simp
  from t8 [rule_format, of 3 2] c(1)
  have a8: "minDistance_table ''horse'' ''ros'' ! 4 ! 3 = minDistance_table ''horse'' ''ros'' ! 3 ! 2"
    by (simp only: l(1,2)) (simp add: eval_nat_numeral)
  from t8 [rule_format, of 4 2] c(2)
  have a9: "minDistance_table ''horse'' ''ros'' ! 5 ! 3 =
     min (minDistance_table ''horse'' ''ros'' ! 4 ! 3 + 1)
       (min (minDistance_table ''horse'' ''ros'' ! 5 ! 2 + 1)
          (minDistance_table ''horse'' ''ros'' ! 4 ! 2 + 1))"
    by (simp only: l(1,2)) (simp add: eval_nat_numeral)
  show ?thesis
    by (intro conjI a1 t2 a3 a4 a5 a6 a7 a8 a9 c t10) simp_all
qed
section \<open>dijkstra (H01)\<close>

text \<open>
  The graph is a vector of adjacency lists of pairs \<open>(v, w)\<close>: a node index and a weight.
  Distances and weights are \<^verbatim>\<open>int\<close> words: \<^verbatim>\<open>dist[u] + w\<close> wraps around and the
  comparisons are signed.  Node indices are integers, and an index outside a vector is
  \<^term>\<open>OutOfRange\<close>.  The vector \<^verbatim>\<open>dist\<close> of the source is \<open>dists\<close>.  The priority queue is the list of its pending entries
  \<open>(cost, node)\<close>; with \<^verbatim>\<open>greater<pair<int, int>>\<close> its top is the least entry in the
  lexicographic order of the pairs.
\<close>

type_synonym graph = "(int \<times> int32) list list"
type_synonym pq_entry = "int32 \<times> int"

definition pq_less :: "pq_entry \<Rightarrow> pq_entry \<Rightarrow> bool" where
  "pq_less a b \<longleftrightarrow> fst a <s fst b \<or> (fst a = fst b \<and> snd a < snd b)"

text \<open>The least entry of \<open>e # es\<close>.\<close>

fun pq_top :: "pq_entry \<Rightarrow> pq_entry list \<Rightarrow> pq_entry" where
  "pq_top e [] = e"
| "pq_top e (x # xs) = pq_top (if pq_less x e then x else e) xs"

text \<open>The range-for loop over the edges of \<open>u\<close>.\<close>

fun dijkstra_relax ::
  "int32 list \<Rightarrow> pq_entry list \<Rightarrow> int \<Rightarrow> (int \<times> int32) list
     \<Rightarrow> failure + (int32 list \<times> pq_entry list)" where
  "dijkstra_relax dists pq u [] = Inr (dists, pq)"
| "dijkstra_relax dists pq u ((v, w) # edges) =
     (case at_index dists u of
        Inl f \<Rightarrow> Inl f
      | Inr du \<Rightarrow>
     (case at_index dists v of
        Inl f \<Rightarrow> Inl f
      | Inr dv \<Rightarrow>
          if du + w <s dv
          then dijkstra_relax (dists[nat v := du + w]) (pq @ [(du + w, v)]) u edges
          else dijkstra_relax dists pq u edges))"

text \<open>What decreases in the while loop: the sum of the distances, then the queue.\<close>

definition dist_sum :: "int32 list \<Rightarrow> nat" where
  "dist_sum dists = sum_list (map (\<lambda>d. nat (sint d + 2147483648)) dists)"

lemma pq_top_mem: "pq_top e es \<in> set (e # es)"
  by (induction es arbitrary: e) auto

lemma dist_sum_update:
  assumes "k < length dists" and "x <s dists ! k"
  shows "dist_sum (dists[k := x]) < dist_sum dists"
proof -
  let ?f = "\<lambda>d :: int32. nat (sint d + 2147483648)"
  have lt: "?f x < ?f (dists ! k)"
    using assms(2) sint_ge [of x] by (simp add: word_sless_alt)
  have le: "?f (dists ! k) \<le> sum_list (map ?f dists)"
    using assms(1) by (intro member_le_sum_list) (simp_all add: nth_mem)
  have "sum_list (map ?f (dists[k := x])) = sum_list (map ?f dists) + ?f x - ?f (dists ! k)"
    using assms(1) by (simp add: map_update sum_list_update)
  with lt le show ?thesis unfolding dist_sum_def by linarith
qed

lemma dijkstra_relax_decreases:
  assumes "dijkstra_relax dists pq u edges = Inr (dists', pq')"
  shows "dist_sum dists' < dist_sum dists \<or> (dists' = dists \<and> pq' = pq)"
  using assms
proof (induction dists pq u edges rule: dijkstra_relax.induct)
  case (1 dists pq u)
  then show ?case by simp
next
  case (2 dists pq u v w edges)
  from "2.prems" obtain du dv where du: "at_index dists u = Inr du" and dv: "at_index dists v = Inr dv"
    by (auto split: sum.splits)
  show ?case
  proof (cases "du + w <s dv")
    case False
    with "2.prems" du dv have "dijkstra_relax dists pq u edges = Inr (dists', pq')" by simp
    from "2.IH"(2) [OF du dv False this] show ?thesis .
  next
    case True
    with "2.prems" du dv
    have r: "dijkstra_relax (dists[nat v := du + w]) (pq @ [(du + w, v)]) u edges = Inr (dists', pq')"
      by simp
    from dv have "nat v < length dists" "dists ! nat v = dv"
      by (auto simp: at_index_def split: if_splits)
    with True have "dist_sum (dists[nat v := du + w]) < dist_sum dists"
      by (intro dist_sum_update) simp_all
    with "2.IH"(1) [OF du dv True r] show ?thesis by auto
  qed
qed

function dijkstra_loop :: "graph \<Rightarrow> int32 list \<Rightarrow> pq_entry list \<Rightarrow> failure + int32 list" where
  "dijkstra_loop graph dists [] = Inr dists"
| "dijkstra_loop graph dists (e # es) =
     (case pq_top e es of
        (cost, u) \<Rightarrow>
          (case at_index dists u of
             Inl f \<Rightarrow> Inl f
           | Inr du \<Rightarrow>
               if du <s cost
               then dijkstra_loop graph dists (remove1 (cost, u) (e # es))
               else (case at_index graph u of
                       Inl f \<Rightarrow> Inl f
                     | Inr edges \<Rightarrow>
                         (case dijkstra_relax dists (remove1 (cost, u) (e # es)) u edges of
                            Inl f \<Rightarrow> Inl f
                          | Inr (dists', pq') \<Rightarrow> dijkstra_loop graph dists' pq'))))"
  by pat_completeness auto
termination
proof (relation "measures [\<lambda>(graph, dists, pq). dist_sum dists, \<lambda>(graph, dists, pq). length pq]",
    goal_cases)
  case 1
  show ?case by simp
next
  case (2 graph dists e es cost u du)
  from pq_top_mem [of e es] 2(1) have "(cost, u) \<in> set (e # es)" by simp
  then have "length (remove1 (cost, u) (e # es)) < length (e # es)"
    by (simp only: length_remove1) simp
  then show ?case by simp
next
  case (3 graph dists e es cost u du edges r dists' pq')
  from pq_top_mem [of e es] 3(1) have "(cost, u) \<in> set (e # es)" by simp
  then have l: "length (remove1 (cost, u) (e # es)) < length (e # es)"
    by (simp only: length_remove1) simp
  from 3(5,6) have "dijkstra_relax dists (remove1 (cost, u) (e # es)) u edges = Inr (dists', pq')"
    by simp
  from dijkstra_relax_decreases [OF this] l show ?case by auto
qed

definition dijkstra :: "graph \<Rightarrow> int \<Rightarrow> failure + int32 list" where
  "dijkstra graph start =
     (let n = length graph;
          dists = replicate n INT_MAX
      in if 0 \<le> start \<and> start < int n
         then dijkstra_loop graph (dists[nat start := 0]) [(0, start)]
         else Inl OutOfRange)"

text \<open>
  A node is reachable from \<open>start\<close> when a path of edges of the graph leads to it; a graph
  is well formed when every edge ends at a node of the graph.
\<close>

inductive reachable :: "graph \<Rightarrow> int \<Rightarrow> int \<Rightarrow> bool" for graph start where
  reachable_start: "reachable graph start start"
| reachable_edge: "reachable graph start u \<Longrightarrow> 0 \<le> u \<Longrightarrow> u < int (length graph) \<Longrightarrow>
     (v, w) \<in> set (graph ! nat u) \<Longrightarrow> reachable graph start v"

definition valid_graph :: "graph \<Rightarrow> bool" where
  "valid_graph graph \<longleftrightarrow>
     list_all (\<lambda>edges. list_all (\<lambda>(v, w). 0 \<le> v \<and> v < int (length graph)) edges) graph"

text \<open>What the while loop keeps (proof device).\<close>

definition dijkstra_inv :: "graph \<Rightarrow> int \<Rightarrow> int32 list \<Rightarrow> pq_entry list \<Rightarrow> bool" where
  "dijkstra_inv graph start dists pq \<longleftrightarrow>
     length dists = length graph \<and>
     (\<forall>(c, u) \<in> set pq. 0 \<le> u \<and> u < int (length graph) \<and> reachable graph start u) \<and>
     (\<forall>v. 0 \<le> v \<longrightarrow> v < int (length graph) \<longrightarrow> \<not> reachable graph start v \<longrightarrow>
          dists ! nat v = INT_MAX)"

lemma dijkstra_relax_inv:
  assumes "dijkstra_inv graph start dists pq" and "0 \<le> u" and "u < int (length graph)"
    and "\<forall>(v, w) \<in> set edges. 0 \<le> v \<and> v < int (length graph) \<and> reachable graph start v"
  shows "\<exists>dists' pq'. dijkstra_relax dists pq u edges = Inr (dists', pq')
           \<and> dijkstra_inv graph start dists' pq'"
  using assms
proof (induction dists pq u edges rule: dijkstra_relax.induct)
  case (1 dists pq u)
  then show ?case by simp
next
  case (2 dists pq u v w edges)
  note inv = "2.prems"(1)
  from inv have len: "length dists = length graph" by (simp add: dijkstra_inv_def)
  from "2.prems"(4) have v: "0 \<le> v" "v < int (length graph)" "reachable graph start v"
    and rest: "\<forall>(v, w) \<in> set edges. 0 \<le> v \<and> v < int (length graph) \<and> reachable graph start v"
    by simp_all
  have du: "at_index dists u = Inr (dists ! nat u)"
    using "2.prems"(2,3) len by (simp add: at_index_def)
  have dv: "at_index dists v = Inr (dists ! nat v)"
    using v len by (simp add: at_index_def)
  show ?case
  proof (cases "dists ! nat u + w <s dists ! nat v")
    case False
    from "2.IH"(2) [OF du dv False inv "2.prems"(2,3) rest] du dv False
    show ?thesis by simp
  next
    case True
    let ?x = "dists ! nat u + w"
    have "dijkstra_inv graph start (dists[nat v := ?x]) (pq @ [(?x, v)])"
      unfolding dijkstra_inv_def
    proof (intro conjI allI impI)
      show "length (dists[nat v := ?x]) = length graph" using len by simp
      show "\<forall>(c, u) \<in> set (pq @ [(?x, v)]).
          0 \<le> u \<and> u < int (length graph) \<and> reachable graph start u"
        using inv v by (auto simp: dijkstra_inv_def)
      fix v' assume v': "0 \<le> v'" "v' < int (length graph)" "\<not> reachable graph start v'"
      have "nat v' \<noteq> nat v"
      proof
        assume "nat v' = nat v"
        with v(1) v'(1) have "v' = v" by simp
        with v(3) v'(3) show False by simp
      qed
      then have "dists[nat v := ?x] ! nat v' = dists ! nat v'" by simp
      with inv v' show "dists[nat v := ?x] ! nat v' = INT_MAX"
        by (simp add: dijkstra_inv_def)
    qed
    from "2.IH"(1) [OF du dv True this "2.prems"(2,3) rest] du dv True
    show ?thesis by simp
  qed
qed

lemma dijkstra_inv_remove1:
  "dijkstra_inv graph start dists pq \<Longrightarrow> dijkstra_inv graph start dists (remove1 x pq)"
  unfolding dijkstra_inv_def using set_remove1_subset [of x pq] by blast

lemma dijkstra_loop_inv:
  assumes "valid_graph graph" and "dijkstra_inv graph start dists pq"
  shows "\<exists>dists'. dijkstra_loop graph dists pq = Inr dists' \<and> dijkstra_inv graph start dists' []"
  using assms
proof (induction graph dists pq rule: dijkstra_loop.induct)
  case (1 graph dists)
  then show ?case by simp
next
  case (2 graph dists e es)
  note inv = "2.prems"(2)
  from inv have len: "length dists = length graph" by (simp add: dijkstra_inv_def)
  obtain cost u where t: "pq_top e es = (cost, u)" by (cases "pq_top e es") auto
  with pq_top_mem [of e es] have "(cost, u) \<in> set (e # es)" by simp
  with inv have u: "0 \<le> u" "u < int (length graph)" "reachable graph start u"
    by (auto simp: dijkstra_inv_def)
  have du: "at_index dists u = Inr (dists ! nat u)"
    using u len by (simp add: at_index_def)
  note inv' = dijkstra_inv_remove1 [OF inv, of "(cost, u)"]
  show ?case
  proof (cases "dists ! nat u <s cost")
    case True
    from "2.IH"(1) [OF t [symmetric] du True "2.prems"(1) inv'] t du True
    show ?thesis by simp
  next
    case False
    have gu: "at_index graph u = Inr (graph ! nat u)"
      using u by (simp add: at_index_def)
    have "graph ! nat u \<in> set graph" using u by simp
    with "2.prems"(1) have "\<forall>(v, w) \<in> set (graph ! nat u). 0 \<le> v \<and> v < int (length graph)"
      by (auto simp: valid_graph_def list_all_iff)
    with u have edges: "\<forall>(v, w) \<in> set (graph ! nat u).
        0 \<le> v \<and> v < int (length graph) \<and> reachable graph start v"
      by (auto intro: reachable_edge)
    from dijkstra_relax_inv [OF inv' u(1,2) edges]
    obtain dists' pq' where r: "dijkstra_relax dists (remove1 (cost, u) (e # es)) u (graph ! nat u)
        = Inr (dists', pq')" and inv2: "dijkstra_inv graph start dists' pq'"
      by blast
    from "2.IH"(2) [OF t [symmetric] du False gu r refl "2.prems"(1) inv2] t du False gu r
    show ?thesis by simp
  qed
qed

text \<open>
  Claim C6.  On the graph with one node and no edge the result is the vector \<open>[0]\<close>.
  On every well-formed graph and every start node of the graph the call returns a
  vector with one distance for each node, in which every node that is not reachable from
  the start still holds \<open>INT_MAX\<close>.  (This holds for all weights, so for the
  non-negative ones.)
\<close>

theorem dijkstra_unreachable_keep_INT_MAX:
  assumes "valid_graph graph" and "0 \<le> start" and "start < int (length graph)"
  shows "dijkstra [[]] 0 = Inr [0]
       \<and> (\<exists>dists. dijkstra graph start = Inr dists \<and> length dists = length graph
             \<and> (\<forall>v. 0 \<le> v \<and> v < int (length graph) \<and> \<not> reachable graph start v
                    \<longrightarrow> dists ! nat v = INT_MAX))"
proof -
  have one: "dijkstra [[]] 0 = Inr [0]"
    by (simp add: dijkstra_def at_index_def)
  let ?d = "(replicate (length graph) INT_MAX)[nat start := 0]"
  have "dijkstra_inv graph start ?d [(0, start)]"
    unfolding dijkstra_inv_def
  proof (intro conjI allI impI)
    show "length ?d = length graph" by simp
    show "\<forall>(c, u) \<in> set [(0, start)]. 0 \<le> u \<and> u < int (length graph) \<and> reachable graph start u"
      using assms(2,3) by (simp add: reachable_start)
    fix v assume v: "0 \<le> v" "v < int (length graph)" "\<not> reachable graph start v"
    have "nat v \<noteq> nat start"
    proof
      assume "nat v = nat start"
      with v(1) assms(2) have "v = start" by simp
      with v(3) show False by (simp add: reachable_start)
    qed
    with v show "?d ! nat v = INT_MAX" by simp
  qed
  from dijkstra_loop_inv [OF assms(1) this]
  obtain dists where r: "dijkstra_loop graph ?d [(0, start)] = Inr dists"
    and inv: "dijkstra_inv graph start dists []"
    by blast
  from r assms(2,3) have "dijkstra graph start = Inr dists"
    by (simp add: dijkstra_def)
  with inv one show ?thesis
    by (auto simp: dijkstra_inv_def)
qed

theorem dijkstra_unreachable_keep_INT_MAX_witness:
  "valid_graph [[(1, 5)], [], []]
   \<and> \<not> reachable [[(1, 5)], [], []] 0 2
   \<and> dijkstra [[(1, 5)], [], []] 0 = Inr [0, 5, INT_MAX]"
proof -
  let ?g = "[[(1, 5)], [], []] :: graph"
  have h: "valid_graph ?g" "(0 :: int) \<le> 0" "(0 :: int) < int (length ?g)"
    by (simp_all add: valid_graph_def)
  have n: "\<not> reachable ?g 0 2"
  proof
    assume "reachable ?g 0 2"
    moreover have "reachable ?g 0 v \<Longrightarrow> v = 0 \<or> v = 1" for v
    proof (induction rule: reachable.induct)
      case reachable_start
      show ?case by simp
    next
      case (reachable_edge u v w)
      then show ?case by auto
    qed
    ultimately show False by fastforce
  qed
  have e: "dijkstra ?g 0 = Inr [0, 5, INT_MAX]"
    unfolding INT_MAX_def by code_simp
  from dijkstra_unreachable_keep_INT_MAX [OF h] h(1) n e show ?thesis by simp
qed

section \<open>isValidParentheses (M04)\<close>

text \<open>
  The range-for loop over the characters of \<open>s\<close>, with the stack as a list whose head is
  the top.  The two early \<^verbatim>\<open>return false\<close> are the \<^term>\<open>False\<close> branches; the final
  \<^verbatim>\<open>return stk.empty()\<close> is the equation for the empty rest.
\<close>

fun isValidParentheses_loop :: "string \<Rightarrow> char list \<Rightarrow> bool" where
  "isValidParentheses_loop [] stk = (stk = [])"
| "isValidParentheses_loop (c # cs) stk =
     (if c = CHR ''('' \<or> c = CHR ''{'' \<or> c = CHR ''[''
      then isValidParentheses_loop cs (c # stk)
      else (case stk of
              [] \<Rightarrow> False
            | t # stk' \<Rightarrow>
                if (c = CHR '')'' \<and> t \<noteq> CHR ''('') \<or>
                   (c = CHR ''}'' \<and> t \<noteq> CHR ''{'') \<or>
                   (c = CHR '']'' \<and> t \<noteq> CHR ''['')
                then False
                else isValidParentheses_loop cs stk'))"

definition isValidParentheses :: "string \<Rightarrow> bool" where
  "isValidParentheses s = isValidParentheses_loop s []"

text \<open>
  Claim C9.  A character that is none of the three openers is handled by the closing
  branch: on an empty stack the answer is false whatever follows; otherwise the top is
  popped and the run fails only when the character is a closing bracket that does not
  match the popped opener.  So a letter consumes an opener: \<open>(a\<close> is accepted.
\<close>

theorem isValidParentheses_non_opener_closes:
  assumes "c \<noteq> CHR ''(''" and "c \<noteq> CHR ''{''" and "c \<noteq> CHR ''[''"
  shows "isValidParentheses_loop (c # cs) [] = False
       \<and> isValidParentheses (c # cs) = False
       \<and> isValidParentheses_loop (c # cs) (t # stk) =
           (\<not> ((c = CHR '')'' \<and> t \<noteq> CHR ''('') \<or>
                (c = CHR ''}'' \<and> t \<noteq> CHR ''{'') \<or>
                (c = CHR '']'' \<and> t \<noteq> CHR ''[''))
            \<and> isValidParentheses_loop cs stk)
       \<and> isValidParentheses ''(a'' = True"
  using assms by (simp add: isValidParentheses_def)

theorem isValidParentheses_non_opener_closes_witness:
  "isValidParentheses_loop ''a)'' [] = False
   \<and> isValidParentheses ''a)'' = False
   \<and> isValidParentheses_loop ''a)'' ''(('' = True
   \<and> isValidParentheses ''(a'' = True"
  using isValidParentheses_non_opener_closes [of "CHR ''a''" "'')''" "CHR ''(''" "''(''"]
  by (simp add: isValidParentheses_def)

end
